theory Spec2Isabelle
  imports Main "HOL-Library.Word"
begin

unbundle bit_operations_syntax

section \<open>Python values: exceptions, bytes, indexing\<close>

text \<open>
  The exceptions the modelled functions can raise. The specification's \<open>FormatError\<close> is
  the \<open>ValueError\<close> of the code.
\<close>

datatype error = ValueError | IndexError | OverflowError | ZeroDivisionError

type_synonym byte = "8 word"
type_synonym bytes = "byte list"

definition ebind :: "error + 'a \<Rightarrow> ('a \<Rightarrow> error + 'b) \<Rightarrow> error + 'b" where
  "ebind m f = (case m of Inl e \<Rightarrow> Inl e | Inr x \<Rightarrow> f x)"

text \<open>A \<open>for\<close> loop over a list whose body may raise: the first exception ends the loop.\<close>

fun efold :: "('a \<Rightarrow> 's \<Rightarrow> error + 's) \<Rightarrow> 'a list \<Rightarrow> 's \<Rightarrow> error + 's" where
  "efold f [] s = Inr s"
| "efold f (x # xs) s = (case f x s of Inl e \<Rightarrow> Inl e | Inr s' \<Rightarrow> efold f xs s')"

text \<open>
  Indexing \<open>xs[i]\<close> as Python does it: \<open>i\<close> from \<open>-len(xs)\<close> up to \<open>-1\<close> addresses
  the list from its end, and any index outside \<open>[-len(xs), len(xs))\<close> raises.
\<close>

definition getitem :: "'a list \<Rightarrow> int \<Rightarrow> error + 'a" where
  "getitem xs i =
     (if 0 \<le> i \<and> i < int (length xs) then Inr (xs ! nat i)
      else if - int (length xs) \<le> i \<and> i < 0 then Inr (xs ! nat (int (length xs) + i))
      else Inl IndexError)"

text \<open>
  Python's slice \<open>xs[a:b]\<close> and slice assignment \<open>xs[a:b] = ys\<close> for bounds that are not
  negative: both clip the bounds to the length, and the assignment may change the length.
\<close>

definition py_slice :: "'a list \<Rightarrow> nat \<Rightarrow> nat \<Rightarrow> 'a list" where
  "py_slice xs a b = take (b - a) (drop a xs)"

definition set_slice :: "'a list \<Rightarrow> nat \<Rightarrow> nat \<Rightarrow> 'a list \<Rightarrow> 'a list" where
  "set_slice xs a b ys = take a xs @ ys @ drop (max a b) xs"

section \<open>utils.py: constants\<close>

definition Q_FRAC :: nat where "Q_FRAC = 12"
definition Q_SCALE :: int where "Q_SCALE = push_bit Q_FRAC 1"
definition BIAS_INT :: int where "BIAS_INT = 8388608"
definition U24_MAX :: int where "U24_MAX = push_bit 24 1 - 1"

section \<open>utils.py (No\_Libraries): the IMGB container\<close>

definition MAGIC :: bytes where
  "MAGIC = [0x49, 0x4D, 0x47, 0x42]"

fun from_bytes_le :: "bytes \<Rightarrow> nat" where
  "from_bytes_le [] = 0"
| "from_bytes_le (b # bs) = unat b + 256 * from_bytes_le bs"

fun to_bytes_le_aux :: "nat \<Rightarrow> nat \<Rightarrow> bytes" where
  "to_bytes_le_aux 0 v = []"
| "to_bytes_le_aux (Suc n) v = of_nat (v mod 256) # to_bytes_le_aux n (v div 256)"

definition to_bytes_le :: "nat \<Rightarrow> nat \<Rightarrow> error + bytes" where
  "to_bytes_le n v = (if v < 256 ^ n then Inr (to_bytes_le_aux n v) else Inl OverflowError)"

definition u32_le :: "bytes \<Rightarrow> nat \<Rightarrow> nat" where
  "u32_le b off = from_bytes_le (py_slice b off (off + 4))"

definition bytes_per_sample :: "nat \<Rightarrow> error + nat" where
  "bytes_per_sample dtype_code =
     (if dtype_code = 1 then Inr 1
      else if dtype_code = 2 then Inr 2
      else if dtype_code = 3 then Inr 4
      else if dtype_code = 4 then Inr 3
      else Inl ValueError)"

definition imgb_parse :: "bytes \<Rightarrow> error + (nat \<times> nat \<times> nat \<times> nat \<times> bytes)" where
  "imgb_parse buf =
     (if length buf < 16 then Inl ValueError
      else if py_slice buf 0 4 \<noteq> MAGIC then Inl ValueError
      else
        let W = u32_le buf 4;
            H = u32_le buf 8;
            C = unat (buf ! 12);
            dtype_code = unat (buf ! 13);
            payload = drop 16 buf
        in ebind (bytes_per_sample dtype_code) (\<lambda>bps.
             let expected = W * H * C * bps in
             if length payload \<noteq> expected then Inl ValueError
             else Inr (W, H, C, dtype_code, payload)))"

definition imbg_parse_payload :: "bytes \<Rightarrow> bytes" where
  "imbg_parse_payload buf = drop 16 buf"

definition imgb_make :: "nat \<Rightarrow> nat \<Rightarrow> nat \<Rightarrow> nat \<Rightarrow> bytes \<Rightarrow> error + bytes" where
  "imgb_make W H C dtype_code payload =
     ebind (bytes_per_sample dtype_code) (\<lambda>bps.
       let expected = W * H * C * bps in
       if length payload \<noteq> expected then Inl ValueError
       else
         let hdr = replicate 16 (0 :: byte);
             hdr = set_slice hdr 0 4 MAGIC
         in ebind (to_bytes_le 4 W) (\<lambda>wb.
              let hdr = set_slice hdr 4 8 wb
              in ebind (to_bytes_le 4 H) (\<lambda>hb.
                   let hdr = set_slice hdr 8 12 hb;
                       hdr = hdr[12 := of_nat (C AND 255)];
                       hdr = hdr[13 := of_nat (dtype_code AND 255)];
                       hdr = set_slice hdr 14 16 [0, 0]
                   in Inr (hdr @ payload))))"

section \<open>utils.py (Bit\_Manipulation): the IMGB container without validation\<close>

definition imgb_parse_bm :: "bytes \<Rightarrow> error + (nat \<times> nat \<times> nat \<times> nat \<times> bytes)" where
  "imgb_parse_bm buf =
     (let W = u32_le buf 4;
          H = u32_le buf 8
      in ebind (getitem buf 12) (\<lambda>C.
           ebind (getitem buf 13) (\<lambda>dtype_code.
             let payload = drop 16 buf
             in Inr (W, H, unat C, unat dtype_code, payload))))"

definition imgb_make_bm :: "nat \<Rightarrow> nat \<Rightarrow> nat \<Rightarrow> nat \<Rightarrow> bytes \<Rightarrow> error + bytes" where
  "imgb_make_bm W H C dtype_code payload =
     (let hdr = replicate 16 (0 :: byte);
          hdr = set_slice hdr 0 4 MAGIC
      in ebind (to_bytes_le 4 W) (\<lambda>wb.
           let hdr = set_slice hdr 4 8 wb
           in ebind (to_bytes_le 4 H) (\<lambda>hb.
                let hdr = set_slice hdr 8 12 hb;
                    hdr = hdr[12 := of_nat (C AND 255)];
                    hdr = hdr[13 := of_nat (dtype_code AND 255)];
                    hdr = set_slice hdr 14 16 [0, 0]
                in Inr (hdr @ payload))))"

section \<open>confidence.py, disparity.py: fixed-point helpers\<close>

text \<open>\<open>_bias_from_q12_12\<close> (confidence.py) and \<open>_bias_q\<close> (disparity.py) have the same body.\<close>

definition bias_from_q12_12 :: "int \<Rightarrow> int" where
  "bias_from_q12_12 q =
     (let u = q + BIAS_INT in
      if u < 0 then 0 else if u > 16777215 then 16777215 else u)"

definition bias_q :: "int \<Rightarrow> int" where
  "bias_q q =
     (let u = q + BIAS_INT in
      if u < 0 then 0 else if u > U24_MAX then U24_MAX else u)"

definition abs_i32 :: "int \<Rightarrow> int" where
  "abs_i32 x = (if x < 0 then - x else x)"

definition round_div2 :: "int \<Rightarrow> int" where
  "round_div2 x = (if x \<ge> 0 then drop_bit 1 (x + 1) else - (drop_bit 1 ((- x) + 1)))"

section \<open>cross.py: reflection indexing\<close>

text \<open>
  \<open>_reflect_index\<close> is a \<open>while\<close> loop with no bound on its iterations, so the model is a
  partial function: \<open>None\<close> is the loop that never ends.
\<close>

partial_function (option) reflect_index :: "int \<Rightarrow> int \<Rightarrow> int option" where
  "reflect_index i n =
     (if i < 0 \<or> i \<ge> n then
        (if i < 0 then reflect_index (- i) n else reflect_index ((2 * n - 2) - i) n)
      else Some i)"

section \<open>disparity.py: box sum over a plane\<close>

text \<open>
  \<open>_box_sum_2d_int\<close>. The rows of \<open>integ\<close> and \<open>out\<close> are built with their full length, so
  the reads and writes of those rows are in range by construction; the reads of \<open>plane\<close>
  depend on the input and may raise. First the inner loop over \<open>x\<close> that fills one row of
  the integral image.
\<close>

definition integ_row :: "int list \<Rightarrow> int list \<Rightarrow> int list \<Rightarrow> nat \<Rightarrow> error + (int \<times> int list)" where
  "integ_row prow ia0 ia1 W =
     efold (\<lambda>x (row_sum, ia1).
              ebind (getitem prow (int x)) (\<lambda>v.
                let row_sum = row_sum + v
                in Inr (row_sum, ia1[x + 1 := ia0 ! (x + 1) + row_sum])))
       [0..<W] (0, ia1)"

definition integ_step :: "int list list \<Rightarrow> nat \<Rightarrow> nat \<Rightarrow> int list list \<Rightarrow> error + int list list" where
  "integ_step plane W a integ =
     ebind (integ_row (plane ! a) (integ ! a) (integ ! (a + 1)) W) (\<lambda>(row_sum, ia1).
       Inr (integ[a + 1 := ia1]))"

definition integral_image :: "int list list \<Rightarrow> nat \<Rightarrow> nat \<Rightarrow> error + int list list" where
  "integral_image plane A W =
     efold (integ_step plane W) [0..<A] (replicate (A + 1) (replicate (W + 1) 0))"

definition box_row :: "int list \<Rightarrow> int list \<Rightarrow> int \<Rightarrow> nat \<Rightarrow> int list \<Rightarrow> int list" where
  "box_row ia0 ia1 r W orow =
     fold (\<lambda>x orow.
             let x0 = int x - r;
                 x1 = int x + r;
                 x0 = (if x0 < 0 then 0 else x0);
                 x1 = (if x1 \<ge> int W then int W - 1 else x1);
                 s = ia1 ! nat (x1 + 1) - ia0 ! nat (x1 + 1) - ia1 ! nat x0 + ia0 ! nat x0
             in orow[x := s])
       [0..<W] orow"

definition box_out :: "int list list \<Rightarrow> int \<Rightarrow> nat \<Rightarrow> nat \<Rightarrow> int list list" where
  "box_out integ r A W =
     fold (\<lambda>a out.
             let a0 = int a - r;
                 a1 = int a + r;
                 a0 = (if a0 < 0 then 0 else a0);
                 a1 = (if a1 \<ge> int A then int A - 1 else a1);
                 ia0 = integ ! nat a0;
                 ia1 = integ ! nat (a1 + 1)
             in out[a := box_row ia0 ia1 r W (out ! a)])
       [0..<A] (replicate A (replicate W 0))"

definition box_sum_2d_int :: "int list list \<Rightarrow> int \<Rightarrow> error + int list list" where
  "box_sum_2d_int plane win =
     (if win \<le> 1 then Inr plane
      else
        let r = win div 2;
            A = length plane;
            W = (if A > 0 then length (plane ! 0) else 0)
        in ebind (integral_image plane A W) (\<lambda>integ. Inr (box_out integ r A W)))"

definition box_sum_2d_int_bm :: "int list list \<Rightarrow> int \<Rightarrow> error + int list list" where
  "box_sum_2d_int_bm plane win =
     (if win \<le> 1 then Inr plane
      else
        let r = drop_bit 1 win;
            A0 = length plane
        in if A0 \<le> 0 then Inr plane
           else
             let W0 = length (plane ! 0)
             in ebind (integral_image plane A0 W0) (\<lambda>integ. Inr (box_out integ r A0 W0)))"

text \<open>
  The value the integral image holds at row \<open>a\<close>, column \<open>x\<close>: the sum of the plane's
  entries above and to the left.
\<close>

definition isum :: "int list list \<Rightarrow> nat \<Rightarrow> nat \<Rightarrow> int" where
  "isum plane a x = (\<Sum>i<a. sum_list (take x (plane ! i)))"

section \<open>Packed 24-bit samples\<close>

text \<open>
  \<open>_u24_read\<close> and \<open>_u24_write\<close> have the same body in every file that defines them. Item
  assignment \<open>out[i] = v\<close> on a \<open>bytearray\<close>: the index as for reading, and a value
  outside \<open>range(256)\<close> raises \<open>ValueError\<close>.
\<close>

definition setitem :: "bytes \<Rightarrow> int \<Rightarrow> int \<Rightarrow> error + bytes" where
  "setitem out i v =
     (if v < 0 \<or> 255 < v then Inl ValueError
      else if 0 \<le> i \<and> i < int (length out) then Inr (out[nat i := word_of_int v])
      else if - int (length out) \<le> i \<and> i < 0 then Inr (out[nat (int (length out) + i) := word_of_int v])
      else Inl IndexError)"

definition u24_read :: "bytes \<Rightarrow> int \<Rightarrow> error + int" where
  "u24_read p o' =
     ebind (getitem p o') (\<lambda>b0.
       ebind (getitem p (o' + 1)) (\<lambda>b1.
         ebind (getitem p (o' + 2)) (\<lambda>b2.
           Inr (uint b0 OR push_bit 8 (uint b1) OR push_bit 16 (uint b2)))))"

definition u24_write :: "bytes \<Rightarrow> int \<Rightarrow> int \<Rightarrow> error + bytes" where
  "u24_write out o' u =
     (let u = u AND 16777215
      in ebind (setitem out o' (u AND 255)) (\<lambda>out.
           ebind (setitem out (o' + 1) (drop_bit 8 u AND 255)) (\<lambda>out.
             setitem out (o' + 2) (drop_bit 16 u AND 255))))"

text \<open>
  For the statements below: the 24-bit little-endian sample at a byte offset, and a buffer
  with one sample stored at a byte offset.
\<close>

definition u24_at :: "bytes \<Rightarrow> nat \<Rightarrow> int" where
  "u24_at p n = uint (p ! n) + 256 * uint (p ! (n + 1)) + 65536 * uint (p ! (n + 2))"

definition put24 :: "bytes \<Rightarrow> nat \<Rightarrow> int \<Rightarrow> bytes" where
  "put24 out n u =
     out[n := word_of_int (u mod 256), n + 1 := word_of_int (u div 256 mod 256),
         n + 2 := word_of_int (u div 65536 mod 256)]"

section \<open>disparity.py (Bit\_Manipulation): fixed-point fusion\<close>

text \<open>Constants of the Bit\_Manipulation pipeline (a 512 by 512 image, nine views).\<close>

definition Q_ONE :: int where "Q_ONE = push_bit Q_FRAC 1"
definition WH_SIZE :: nat where "WH_SIZE = 512"
definition N_IMG :: nat where "N_IMG = 262144"
definition OUT_IMG_BYTES :: nat where "OUT_IMG_BYTES = 786432"
definition BYTES_PER_SAMPLE :: int where "BYTES_PER_SAMPLE = 3"

definition mul_q12 :: "int \<Rightarrow> int \<Rightarrow> int" where
  "mul_q12 a_q12 b_q12 =
     (let prod = a_q12 * b_q12
      in if prod \<ge> 0 then drop_bit Q_FRAC (prod + push_bit (Q_FRAC - 1) 1)
         else - (drop_bit Q_FRAC ((- prod) + push_bit (Q_FRAC - 1) 1)))"

text \<open>The \<open>while e > 0\<close> loop of \<open>_pow_q12_int\<close>, on the state \<open>(result, b, e)\<close>.\<close>

function pow_q12_loop :: "int \<Rightarrow> int \<Rightarrow> int \<Rightarrow> int" where
  "pow_q12_loop result b e =
     (if e > 0 then
        pow_q12_loop (if e AND 1 \<noteq> 0 then mul_q12 result b else result)
          (if drop_bit 1 e \<noteq> 0 then mul_q12 b b else b)
          (drop_bit 1 e)
      else result)"
  by pat_completeness auto
termination
  by (relation "measure (\<lambda>(result, b, e). nat e)") (auto simp: drop_bit_eq_div)

declare pow_q12_loop.simps [simp del]

definition pow_q12_int :: "int \<Rightarrow> int \<Rightarrow> int" where
  "pow_q12_int base_q12 exp =
     (if exp \<le> 0 then Q_ONE
      else if exp = 1 then base_q12
      else pow_q12_loop Q_ONE base_q12 exp)"

definition clamp_q12 :: "int \<Rightarrow> int \<Rightarrow> int \<Rightarrow> int" where
  "clamp_q12 x_q12 lo_q12 hi_q12 =
     (if x_q12 < lo_q12 then lo_q12
      else if x_q12 > hi_q12 then hi_q12
      else x_q12)"

text \<open>
  The body of the pixel loop of \<open>fuse_disparity_precision\<close> (Bit\_Manipulation), after the
  four samples are read: the weight of one axis, the numerator and the denominator of the
  blend, and the value that is stored.
\<close>

definition fuse_weight :: "int \<Rightarrow> int \<Rightarrow> int \<Rightarrow> int \<Rightarrow> int" where
  "fuse_weight c_q12 temperature floor cap =
     (let c_q12 = (if c_q12 < 0 then 0 else c_q12);
          c_q12 = clamp_q12 c_q12 floor cap
      in pow_q12_int c_q12 temperature)"

definition fuse_num :: "int \<Rightarrow> int \<Rightarrow> int \<Rightarrow> int \<Rightarrow> int \<Rightarrow> int \<Rightarrow> int \<Rightarrow> int" where
  "fuse_num zh_q12 zv_q12 ch_q12 cv_q12 temperature floor cap =
     (fuse_weight ch_q12 temperature floor cap * zh_q12)
     + (fuse_weight cv_q12 temperature floor cap * zv_q12)"

definition fuse_den :: "int \<Rightarrow> int \<Rightarrow> int \<Rightarrow> int \<Rightarrow> int \<Rightarrow> int \<Rightarrow> int" where
  "fuse_den ch_q12 cv_q12 temperature floor cap eps =
     fuse_weight ch_q12 temperature floor cap + fuse_weight cv_q12 temperature floor cap + eps"

definition fuse_z :: "int \<Rightarrow> int \<Rightarrow> int \<Rightarrow> int \<Rightarrow> int \<Rightarrow> int \<Rightarrow> int \<Rightarrow> int \<Rightarrow> int" where
  "fuse_z zh_q12 zv_q12 ch_q12 cv_q12 temperature floor cap eps =
     (let num_q24 = fuse_num zh_q12 zv_q12 ch_q12 cv_q12 temperature floor cap;
          den_q12 = fuse_den ch_q12 cv_q12 temperature floor cap eps
      in if den_q12 \<le> 0 then 0
         else if num_q24 \<ge> 0 then (num_q24 + push_bit (Q_FRAC - 1) den_q12) div den_q12
         else - (((- num_q24) + push_bit (Q_FRAC - 1) den_q12) div den_q12))"

definition fuse_step ::
  "bytes \<Rightarrow> bytes \<Rightarrow> bytes \<Rightarrow> bytes \<Rightarrow> int \<Rightarrow> int \<Rightarrow> int \<Rightarrow> int \<Rightarrow> nat
     \<Rightarrow> bytes \<times> int \<times> int \<Rightarrow> error + (bytes \<times> int \<times> int)" where
  "fuse_step pZh pZv pCh pCv temperature floor cap eps k =
     (\<lambda>(out_pay, o', i3).
        ebind (u24_read pZh i3) (\<lambda>zh. ebind (u24_read pZv i3) (\<lambda>zv.
        ebind (u24_read pCh i3) (\<lambda>ch. ebind (u24_read pCv i3) (\<lambda>cv.
          let z_q12 = fuse_z (zh - BIAS_INT) (zv - BIAS_INT) (ch - BIAS_INT) (cv - BIAS_INT)
                        temperature floor cap eps
          in ebind (u24_write out_pay o' (bias_q z_q12)) (\<lambda>out_pay.
               Inr (out_pay, o' + BYTES_PER_SAMPLE, i3 + BYTES_PER_SAMPLE)))))))"

definition fuse_disparity_precision_bm ::
  "bytes \<Rightarrow> bytes \<Rightarrow> bytes \<Rightarrow> bytes \<Rightarrow> int \<Rightarrow> int \<Rightarrow> int \<Rightarrow> int \<Rightarrow> error + bytes" where
  "fuse_disparity_precision_bm Z_h_imgb Z_v_imgb C_h_imgb C_v_imgb temperature floor cap eps =
     (let pZh = imbg_parse_payload Z_h_imgb;
          pZv = imbg_parse_payload Z_v_imgb;
          pCh = imbg_parse_payload C_h_imgb;
          pCv = imbg_parse_payload C_v_imgb;
          out_pay = replicate OUT_IMG_BYTES (0 :: byte)
      in ebind (efold (fuse_step pZh pZv pCh pCv temperature floor cap eps) [0..<N_IMG]
                  (out_pay, 0, 0))
           (\<lambda>(out_pay, o', i3). imgb_make_bm WH_SIZE WH_SIZE 1 4 out_pay))"

text \<open>
  For the statements below: the decoded (unbiased) sample \<open>j\<close> of a one-channel
  fixed-point map that a stage returned, \<open>None\<close> when the stage raised.
\<close>

definition sample_of :: "error + bytes \<Rightarrow> nat \<Rightarrow> int option" where
  "sample_of r j =
     (case r of Inl e \<Rightarrow> None
      | Inr blob \<Rightarrow> Some (u24_at (imbg_parse_payload blob) (3 * j) - BIAS_INT))"

section \<open>EPIs.py (No\_Libraries): the EPI builder\<close>

text \<open>
  \<open>build_epis_imgb_in_memory\<close> (No\_Libraries). One horizontal EPI: the loop over the
  frames copies row \<open>y\<close> of each frame into the output by slice assignment.
\<close>

definition epi_h_step :: "bytes list \<Rightarrow> nat \<Rightarrow> nat \<Rightarrow> nat \<Rightarrow> bytes \<times> nat \<Rightarrow> error + (bytes \<times> nat)" where
  "epi_h_step h_stack row_bytes row_base u =
     (\<lambda>(out, out_i).
        ebind (getitem h_stack (int u)) (\<lambda>frame.
          Inr (set_slice out out_i (out_i + row_bytes)
                 (py_slice frame row_base (row_base + row_bytes)),
               out_i + row_bytes)))"

definition epi_h_row :: "bytes list \<Rightarrow> nat \<Rightarrow> nat \<Rightarrow> nat \<Rightarrow> error + bytes" where
  "epi_h_row h_stack W U y =
     (let bytes_per_pixel = 3 * 3;
          row_bytes = W * bytes_per_pixel;
          row_base = y * row_bytes
      in ebind (efold (epi_h_step h_stack row_bytes row_base) [0..<U]
                  (replicate (U * row_bytes) 0, 0))
           (\<lambda>(out, out_i). imgb_make W U 3 4 out))"

text \<open>One vertical EPI: for each frame, the inner loop copies one pixel of every image row.\<close>

definition epi_v_inner :: "bytes \<Rightarrow> nat \<Rightarrow> nat \<Rightarrow> nat \<Rightarrow> bytes \<times> nat \<times> nat \<Rightarrow> bytes \<times> nat \<times> nat" where
  "epi_v_inner frame bytes_per_pixel row_bytes H =
     fold (\<lambda>_ (out, out_i, src).
             (set_slice out out_i (out_i + bytes_per_pixel)
                (py_slice frame src (src + bytes_per_pixel)),
              out_i + bytes_per_pixel, src + row_bytes))
       [0..<H]"

definition epi_v_step ::
  "bytes list \<Rightarrow> nat \<Rightarrow> nat \<Rightarrow> nat \<Rightarrow> nat \<Rightarrow> nat \<Rightarrow> bytes \<times> nat \<Rightarrow> error + (bytes \<times> nat)" where
  "epi_v_step v_stack bytes_per_pixel row_bytes H col_off v =
     (\<lambda>(out, out_i).
        ebind (getitem v_stack (int v)) (\<lambda>frame.
          case epi_v_inner frame bytes_per_pixel row_bytes H (out, out_i, col_off) of
            (out, out_i, src) \<Rightarrow> Inr (out, out_i)))"

definition epi_v_col :: "bytes list \<Rightarrow> nat \<Rightarrow> nat \<Rightarrow> nat \<Rightarrow> nat \<Rightarrow> error + bytes" where
  "epi_v_col v_stack H W V x =
     (let bytes_per_pixel = 3 * 3;
          row_bytes = W * bytes_per_pixel;
          col_off = x * bytes_per_pixel
      in ebind (efold (epi_v_step v_stack bytes_per_pixel row_bytes H col_off) [0..<V]
                  (replicate (V * H * bytes_per_pixel) 0, 0))
           (\<lambda>(out, out_i). imgb_make H V 3 4 out))"

definition build_epis_imgb_in_memory ::
  "bytes list \<Rightarrow> bytes list \<Rightarrow> nat \<times> nat \<times> nat \<times> nat \<Rightarrow> nat list \<Rightarrow> nat list
     \<Rightarrow> error + (bytes list \<times> bytes list)" where
  "build_epis_imgb_in_memory h_stack v_stack dims y_rows x_cols =
     (case dims of (H, W, U, V) \<Rightarrow>
        ebind (efold (\<lambda>y epi_h_imgb.
                 ebind (epi_h_row h_stack W U y) (\<lambda>blob. Inr (epi_h_imgb @ [blob])))
               y_rows [])
          (\<lambda>epi_h_imgb.
             ebind (efold (\<lambda>x epi_v_imgb.
                      ebind (epi_v_col v_stack H W V x) (\<lambda>blob. Inr (epi_v_imgb @ [blob])))
                    x_cols [])
               (\<lambda>epi_v_imgb. Inr (epi_h_imgb, epi_v_imgb))))"

section \<open>confidence.py (No\_Libraries): angular differences and confidence\<close>

text \<open>
  \<open>compute_from_epis_with_diffs\<close> (No\_Libraries). The horizontal and the vertical half of
  the function run the same loops on one EPI, of width \<open>W\<close> for a row and of width \<open>H\<close> for a
  column; \<open>N\<close> below is that width. First the degenerate branch, which fills a volume with
  the bias.
\<close>

definition floordiv :: "int \<Rightarrow> int \<Rightarrow> error + int" where
  "floordiv a b = (if b = 0 then Inl ZeroDivisionError else Inr (a div b))"

definition fill_bias :: "nat \<Rightarrow> bytes \<Rightarrow> error + bytes" where
  "fill_bias n out_diff = efold (\<lambda>i out_diff. u24_write out_diff (int (i * 3)) BIAS_INT) [0..<n] out_diff"

definition border_row :: "nat \<Rightarrow> nat \<Rightarrow> bytes \<Rightarrow> error + bytes" where
  "border_row base_out N out_diff =
     efold (\<lambda>x out_diff. u24_write out_diff (int (base_out + x * 3)) BIAS_INT) [0..<N] out_diff"

definition interior_step ::
  "bytes \<Rightarrow> int \<Rightarrow> nat \<Rightarrow> nat \<Rightarrow> nat \<Rightarrow> nat \<Rightarrow> bytes \<times> int list \<Rightarrow> error + (bytes \<times> int list)" where
  "interior_step pay ch N a base_out x =
     (\<lambda>(out_diff, sum_abs).
        let a_m = a - 1;
            a_p = a + 1;
            idx_m = int ((a_m * N + x) * 9) + ch * 3;
            idx_p = int ((a_p * N + x) * 9) + ch * 3
        in ebind (u24_read pay idx_m) (\<lambda>rm. ebind (u24_read pay idx_p) (\<lambda>rp.
             let Lm = rm - BIAS_INT;
                 Lp = rp - BIAS_INT;
                 d = round_div2 (Lp - Lm)
             in ebind (u24_write out_diff (int (base_out + x * 3)) (bias_from_q12_12 d))
                  (\<lambda>out_diff. Inr (out_diff, sum_abs[x := sum_abs ! x + abs_i32 d])))))"

definition epi_diffs :: "bytes \<Rightarrow> int \<Rightarrow> nat \<Rightarrow> nat \<Rightarrow> error + (bytes \<times> int list)" where
  "epi_diffs pay ch A N =
     efold (\<lambda>a (out_diff, sum_abs).
              let base_out = (a * N) * 3
              in if a = 0 \<or> a = A - 1
                 then ebind (border_row base_out N out_diff) (\<lambda>out_diff. Inr (out_diff, sum_abs))
                 else efold (interior_step pay ch N a base_out) [0..<N] (out_diff, sum_abs))
       [0..<A] (replicate (A * N * 3) 0, replicate N 0)"

text \<open>The mean of the absolute differences of one EPI, written into the confidence map.\<close>

definition mean_abs :: "int list \<Rightarrow> nat \<Rightarrow> nat \<Rightarrow> (nat \<Rightarrow> nat) \<Rightarrow> int list \<Rightarrow> error + int list" where
  "mean_abs sum_abs denom N pos C_q =
     (let half = int denom div 2
      in efold (\<lambda>x C_q.
                  ebind (floordiv (sum_abs ! x + half) (int denom)) (\<lambda>m. Inr (C_q[pos x := m])))
           [0..<N] C_q)"

definition diffs_h :: "bytes list \<Rightarrow> int \<Rightarrow> nat \<Rightarrow> nat \<Rightarrow> nat \<Rightarrow> error + (bytes list \<times> int list)" where
  "diffs_h epi_h_imgb ch A H W =
     (if A < 3 then
        efold (\<lambda>y (dL_du_h, C_h_q).
                 ebind (fill_bias (A * W) (replicate (A * W * 3) 0)) (\<lambda>out_diff.
                   ebind (imgb_make W A 1 4 out_diff) (\<lambda>blob. Inr (dL_du_h @ [blob], C_h_q))))
          [0..<H] ([], replicate (H * W) 0)
      else
        let denom = A - 2
        in efold (\<lambda>y (dL_du_h, C_h_q).
                    let pay = imbg_parse_payload (epi_h_imgb ! y)
                    in ebind (epi_diffs pay ch A W) (\<lambda>(out_diff, sum_abs).
                         let row_base = y * W
                         in ebind (mean_abs sum_abs denom W (\<lambda>x. row_base + x) C_h_q) (\<lambda>C_h_q.
                              ebind (imgb_make W A 1 4 out_diff) (\<lambda>blob.
                                Inr (dL_du_h @ [blob], C_h_q)))))
             [0..<H] ([], replicate (H * W) 0))"

definition diffs_v :: "bytes list \<Rightarrow> int \<Rightarrow> nat \<Rightarrow> nat \<Rightarrow> nat \<Rightarrow> error + (bytes list \<times> int list)" where
  "diffs_v epi_v_imgb ch A H W =
     (if A < 3 then
        efold (\<lambda>x (dL_dv_v, C_v_q).
                 ebind (fill_bias (A * H) (replicate (A * H * 3) 0)) (\<lambda>out_diff.
                   ebind (imgb_make H A 1 4 out_diff) (\<lambda>blob. Inr (dL_dv_v @ [blob], C_v_q))))
          [0..<W] ([], replicate (H * W) 0)
      else
        let denom = A - 2
        in efold (\<lambda>x (dL_dv_v, C_v_q).
                    let pay = imbg_parse_payload (epi_v_imgb ! x)
                    in ebind (epi_diffs pay ch A H) (\<lambda>(out_diff, sum_abs).
                         ebind (mean_abs sum_abs denom H (\<lambda>y. y * W + x) C_v_q) (\<lambda>C_v_q.
                           ebind (imgb_make H A 1 4 out_diff) (\<lambda>blob.
                             Inr (dL_dv_v @ [blob], C_v_q)))))
             [0..<W] ([], replicate (H * W) 0))"

definition pack_conf :: "int list \<Rightarrow> nat \<Rightarrow> nat \<Rightarrow> error + bytes" where
  "pack_conf C_q W H =
     ebind (efold (\<lambda>i payload. u24_write payload (int (i * 3)) (bias_from_q12_12 (C_q ! i)))
              [0..<H * W] (replicate (H * W * 3) 0))
       (\<lambda>payload. imgb_make W H 1 4 payload)"

definition compute_from_epis_with_diffs ::
  "bytes list \<Rightarrow> bytes list \<Rightarrow> int option \<Rightarrow> error + (bytes \<times> bytes \<times> bytes list \<times> bytes list)" where
  "compute_from_epis_with_diffs epi_h_imgb epi_v_imgb channel =
     (let ch = (case channel of None \<Rightarrow> 0 | Some c \<Rightarrow> c);
          H_img = length epi_h_imgb;
          W_img = length epi_v_imgb
      in if H_img = 0 \<or> W_img = 0 then Inl ValueError
         else
           ebind (imgb_parse (epi_h_imgb ! 0)) (\<lambda>(W_h, A_h, C_hc, dt_h, _).
           ebind (imgb_parse (epi_v_imgb ! 0)) (\<lambda>(W_v, A_v, C_vc, dt_v, _).
             if dt_h \<noteq> 4 \<or> dt_v \<noteq> 4 then Inl ValueError
             else if C_hc \<noteq> 3 \<or> C_vc \<noteq> 3 then Inl ValueError
             else
               let W = W_h; A = A_h; H = H_img
               in if W_img \<noteq> W then Inl ValueError
                  else if W_v \<noteq> H then Inl ValueError
                  else if A_v \<noteq> A then Inl ValueError
                  else
                    ebind (diffs_h epi_h_imgb ch A H W) (\<lambda>(dL_du_h, C_h_q).
                    ebind (pack_conf C_h_q W H) (\<lambda>C_h_imgb.
                    ebind (diffs_v epi_v_imgb ch A H W) (\<lambda>(dL_dv_v, C_v_q).
                    ebind (pack_conf C_v_q W H) (\<lambda>C_v_imgb.
                      Inr (C_h_imgb, C_v_imgb, dL_du_h, dL_dv_v))))))))"

section \<open>Properties\<close>

lemma U24_MAX_val: "U24_MAX = 16777215"
  by (simp add: U24_MAX_def)

lemma bias_q_eq: "bias_q q = bias_from_q12_12 q"
  by (simp add: bias_q_def bias_from_q12_12_def U24_MAX_val Let_def)

subsection \<open>Reflection indexing terminates for a dimension of at least two\<close>

lemma reflect_index_in_range:
  "0 \<le> i \<Longrightarrow> i < n \<Longrightarrow> reflect_index i n = Some i"
  by (subst reflect_index.simps) simp

lemma reflect_index_terminates_aux:
  assumes n: "2 \<le> n"
  shows "\<exists>r. reflect_index i n = Some r \<and> 0 \<le> r \<and> r < n"
proof (induction "nat (if i < 0 then 2 * (- i) + 1 else if i \<ge> n then 2 * i else 0)"
    arbitrary: i rule: less_induct)
  case less
  show ?case
  proof (cases "i < 0")
    case neg: True
    have step: "reflect_index i n = reflect_index (- i) n"
      using neg by (subst reflect_index.simps) simp
    have "nat (if - i < 0 then 2 * (- (- i)) + 1 else if - i \<ge> n then 2 * (- i) else 0)
        < nat (if i < 0 then 2 * (- i) + 1 else if i \<ge> n then 2 * i else 0)"
      using neg by auto
    from less [OF this] step show ?thesis by simp
  next
    case nonneg: False
    show ?thesis
    proof (cases "i \<ge> n")
      case False
      with nonneg show ?thesis by (simp add: reflect_index_in_range)
    next
      case big: True
      let ?j = "(2 * n - 2) - i"
      have step: "reflect_index i n = reflect_index ?j n"
        using nonneg big by (subst reflect_index.simps) simp
      have "nat (if ?j < 0 then 2 * (- ?j) + 1 else if ?j \<ge> n then 2 * ?j else 0)
          < nat (if i < 0 then 2 * (- i) + 1 else if i \<ge> n then 2 * i else 0)"
        using nonneg big n by auto
      from less [OF this] step show ?thesis by simp
    qed
  qed
qed

lemma reflect_index_Some_aux:
  assumes "reflect_index i n = Some r"
  shows "1 \<le> n \<and> (n = 1 \<longrightarrow> i = 0)"
  apply (rule reflect_index.raw_induct
        [where P = "\<lambda>i n r. 1 \<le> n \<and> (n = 1 \<longrightarrow> i = 0)", OF _ assms])
  subgoal premises prems for f j m s
  proof (cases "j < 0")
    case True
    with prems(2) have "f (- j) m = Some s" by simp
    from prems(1) [OF this] True show ?thesis by linarith
  next
    case nonneg: False
    show ?thesis
    proof (cases "m \<le> j")
      case True
      with prems(2) nonneg have "f (2 * m - 2 - j) m = Some s" by simp
      from prems(1) [OF this] True nonneg show ?thesis by linarith
    next
      case False
      with nonneg show ?thesis by linarith
    qed
  qed
  done

subsection \<open>The IMGB container\<close>

lemma bytes_per_sample_Inl: "bytes_per_sample d = Inl e \<Longrightarrow> e = ValueError"
  by (auto simp: bytes_per_sample_def split: if_splits)

lemma and_255_nat: "(C :: nat) AND 255 = C mod 256"
  using take_bit_eq_mask [of 8 C] by (simp add: take_bit_eq_mod mask_eq_exp_minus_1)

lemma from_to_bytes_le: "v < 256 ^ n \<Longrightarrow> from_bytes_le (to_bytes_le_aux n v) = v"
proof (induction n arbitrary: v)
  case 0 then show ?case by simp
next
  case (Suc n)
  have "v div 256 < 256 ^ n" using Suc.prems by (simp add: less_mult_imp_div_less mult.commute)
  then have "from_bytes_le (to_bytes_le_aux n (v div 256)) = v div 256" by (rule Suc.IH)
  then show ?case by (simp add: unat_of_nat)
qed

lemma length_to_bytes_le_aux: "length (to_bytes_le_aux n v) = n"
  by (induction n arbitrary: v) auto

lemma make_header:
  assumes "length wb = 4" "length hb = 4"
  shows "(set_slice ((set_slice (set_slice (set_slice (replicate 16 (0::byte)) 0 4 MAGIC) 4 8 wb) 8 12 hb)[12 := c, 13 := d]) 14 16 [0,0])
     = MAGIC @ wb @ hb @ [c, d, 0, 0]"
proof -
  obtain w0 w1 w2 w3 where wb: "wb = [w0,w1,w2,w3]"
    using assms(1) by (auto simp: length_Suc_conv numeral_eq_Suc)
  obtain h0 h1 h2 h3 where hb: "hb = [h0,h1,h2,h3]"
    using assms(2) by (auto simp: length_Suc_conv numeral_eq_Suc)
  show ?thesis
    by (simp add: wb hb set_slice_def MAGIC_def numeral_eq_Suc)
qed

lemma imgb_make_ok:
  assumes "W < 2 ^ 32" "H < 2 ^ 32" "bytes_per_sample dtype_code = Inr bps"
      "length payload = W * H * C * bps"
  shows "imgb_make W H C dtype_code payload =
     Inr (MAGIC @ to_bytes_le_aux 4 W @ to_bytes_le_aux 4 H
          @ [of_nat (C AND 255), of_nat (dtype_code AND 255), 0, 0] @ payload)"
  using assms
  by (simp add: imgb_make_def ebind_def to_bytes_le_def Let_def make_header length_to_bytes_le_aux)

lemma imgb_make_then_parse:
  assumes "W < 2 ^ 32" "H < 2 ^ 32" "C < 256" "dtype_code \<in> {1, 2, 3, 4}"
    and bps: "bytes_per_sample dtype_code = Inr bps"
    and len: "length payload = W * H * C * bps"
  shows "\<exists>buf. imgb_make W H C dtype_code payload = Inr buf
           \<and> imgb_parse buf = Inr (W, H, C, dtype_code, payload)"
proof -
  let ?buf = "MAGIC @ to_bytes_le_aux 4 W @ to_bytes_le_aux 4 H
          @ [of_nat (C AND 255), of_nat (dtype_code AND 255), 0, 0] @ payload"
  have mk: "imgb_make W H C dtype_code payload = Inr ?buf"
    using assms(1,2) bps len by (rule imgb_make_ok)
  have dt: "dtype_code < 256" using assms(4) by auto
  have lw: "length (to_bytes_le_aux 4 W) = 4" "length (to_bytes_le_aux 4 H) = 4"
    by (simp_all add: length_to_bytes_le_aux)
  have w: "u32_le ?buf 4 = W"
    using from_to_bytes_le [of W 4] assms(1) lw
    by (simp add: u32_le_def py_slice_def MAGIC_def)
  have h: "u32_le ?buf 8 = H"
    using from_to_bytes_le [of H 4] assms(2) lw
    by (simp add: u32_le_def py_slice_def MAGIC_def)
  have c: "unat (?buf ! 12) = C"
    using lw assms(3) by (simp add: nth_append MAGIC_def and_255_nat unat_of_nat)
  have d: "unat (?buf ! 13) = dtype_code"
    using lw dt by (simp add: nth_append MAGIC_def and_255_nat unat_of_nat)
  have p: "drop 16 ?buf = payload"
    using lw by (simp add: MAGIC_def)
  have m: "py_slice ?buf 0 4 = MAGIC"
    by (simp add: py_slice_def MAGIC_def)
  have l: "\<not> length ?buf < 16" using lw by (simp add: MAGIC_def)
  have "imgb_parse ?buf = Inr (W, H, C, dtype_code, payload)"
    unfolding imgb_parse_def using bps len
    by (simp only: l m w h c d p Let_def ebind_def if_False simp_thms sum.case)
  with mk show ?thesis by blast
qed

text \<open>
  C5. Biased encode \<open>stored = clamp(signed + 8388608, 0, 16777215)\<close>: a signed value below
  \<open>-8388608\<close> is stored as 0, a signed value above \<open>16777215 - 8388608\<close> is stored as
  16777215, every stored value lies in the 24-bit range (no wrap-around), and a signed value
  in range is stored as \<open>signed + 8388608\<close>. Both copies of the operation
  (\<open>_bias_from_q12_12\<close> and \<open>_bias_q\<close>) are covered.
\<close>

theorem bias_saturates:
  "(q < - 8388608 \<longrightarrow> bias_from_q12_12 q = 0 \<and> bias_q q = 0)
   \<and> (q > 16777215 - 8388608 \<longrightarrow> bias_from_q12_12 q = 16777215 \<and> bias_q q = 16777215)
   \<and> (- 8388608 \<le> q \<and> q \<le> 16777215 - 8388608 \<longrightarrow>
        bias_from_q12_12 q = q + 8388608 \<and> bias_q q = q + 8388608)
   \<and> 0 \<le> bias_from_q12_12 q \<and> bias_from_q12_12 q \<le> 16777215
   \<and> 0 \<le> bias_q q \<and> bias_q q \<le> 16777215"
  by (simp add: bias_q_eq bias_from_q12_12_def BIAS_INT_def Let_def)

theorem bias_saturates_witness:
  "bias_from_q12_12 (- 8388609) = 0 \<and> bias_q (- 8388609) = 0
   \<and> bias_from_q12_12 8388608 = 16777215 \<and> bias_q 8388608 = 16777215
   \<and> bias_from_q12_12 (- 4096) = 8384512 \<and> bias_q (- 4096) = 8384512"
  using bias_saturates [of "- 8388609"] bias_saturates [of 8388608] bias_saturates [of "- 4096"]
  by simp

text \<open>
  C10. For every dimension \<open>n \<ge> 2\<close> and every integer index \<open>i\<close>, \<open>_reflect_index\<close>
  terminates and returns a value in \<open>[0, n)\<close>. The bound on \<open>n\<close> is needed: for a
  dimension below 2 the loop never ends, except at \<open>n = 1\<close>, \<open>i = 0\<close>.
\<close>

theorem reflect_index_terminates:
  "(2 \<le> n \<longrightarrow> (\<exists>r. reflect_index i n = Some r \<and> 0 \<le> r \<and> r < n))
   \<and> (n < 2 \<and> \<not> (n = 1 \<and> i = 0) \<longrightarrow> reflect_index i n = None)"
proof (intro conjI impI)
  assume "2 \<le> n"
  then show "\<exists>r. reflect_index i n = Some r \<and> 0 \<le> r \<and> r < n"
    by (rule reflect_index_terminates_aux)
next
  assume a: "n < 2 \<and> \<not> (n = 1 \<and> i = 0)"
  show "reflect_index i n = None"
  proof (cases "reflect_index i n")
    case None
    then show ?thesis .
  next
    case (Some r)
    from reflect_index_Some_aux [OF Some] a show ?thesis by linarith
  qed
qed

theorem reflect_index_terminates_witness:
  "(\<exists>r. reflect_index (- 3) 2 = Some r \<and> 0 \<le> r \<and> r < 2) \<and> reflect_index (- 3) 1 = None"
  using reflect_index_terminates [of 2 "- 3"] reflect_index_terminates [of 1 "- 3"]
  by simp

text \<open>
  C4. Round trip of the container codec (No\_Libraries \<open>utils.py\<close>): for a width and a
  height that fit the 32-bit header fields, a channel count that fits its byte, a sample
  encoding in \<open>{1, 2, 3, 4}\<close> and a payload of
  \<open>width * height * channels * bytes_per_sample(encoding)\<close> bytes, \<open>imgb_make\<close> returns a
  buffer, and \<open>imgb_parse\<close> of that buffer returns exactly the original
  \<open>(width, height, channels, encoding, payload)\<close>.
\<close>

theorem imgb_round_trip:
  assumes "W < 2 ^ 32" "H < 2 ^ 32" "C < 256" "dtype_code \<in> {1, 2, 3, 4}"
    and bps: "bytes_per_sample dtype_code = Inr bps"
    and len: "length payload = W * H * C * bps"
  shows "\<exists>buf. imgb_make W H C dtype_code payload = Inr buf
           \<and> imgb_parse buf = Inr (W, H, C, dtype_code, payload)"
  using assms by (rule imgb_make_then_parse)

theorem imgb_round_trip_witness:
  "\<exists>buf. imgb_make 2 1 3 4 [1, 2, 3, 4, 5, 6, 7, 8, 9, 10, 11, 12, 13, 14, 15, 16, 17, 18] = Inr buf
     \<and> imgb_parse buf
         = Inr (2, 1, 3, 4, [1, 2, 3, 4, 5, 6, 7, 8, 9, 10, 11, 12, 13, 14, 15, 16, 17, 18])"
  using imgb_round_trip
    [of 2 1 3 4 3 "[1, 2, 3, 4, 5, 6, 7, 8, 9, 10, 11, 12, 13, 14, 15, 16, 17, 18]"]
  by (simp add: bytes_per_sample_def)

text \<open>
  C1, as amended. In the No\_Libraries \<open>utils.py\<close>, for every input buffer, \<open>imgb_parse\<close> fails
  with \<open>ValueError\<close> (the specification's \<open>FormatError\<close>) when the first four bytes are not
  \<open>IMGB\<close>, and fails with \<open>ValueError\<close> when the number of bytes past offset 16 differs
  from \<open>width * height * channels * bytes_per_sample(encoding)\<close>; so it returns a parsed
  result only for a buffer with the magic and the expected payload length. (The
  Bit\_Manipulation \<open>imgb_parse\<close> validates nothing, see the counterexample.)
\<close>

theorem imgb_parse_rejects:
  "(py_slice buf 0 4 \<noteq> MAGIC \<longrightarrow> imgb_parse buf = Inl ValueError)
   \<and> ((\<forall>bps. bytes_per_sample (unat (buf ! 13)) = Inr bps \<longrightarrow>
          length (drop 16 buf) \<noteq> u32_le buf 4 * u32_le buf 8 * unat (buf ! 12) * bps)
        \<longrightarrow> imgb_parse buf = Inl ValueError)
   \<and> (\<forall>r. imgb_parse buf = Inr r \<longrightarrow>
          py_slice buf 0 4 = MAGIC
          \<and> (\<exists>bps. bytes_per_sample (unat (buf ! 13)) = Inr bps
                \<and> length (drop 16 buf) = u32_le buf 4 * u32_le buf 8 * unat (buf ! 12) * bps)
          \<and> r = (u32_le buf 4, u32_le buf 8, unat (buf ! 12), unat (buf ! 13), drop 16 buf))"
  by (cases "bytes_per_sample (unat (buf ! 13))")
    (auto simp: imgb_parse_def ebind_def Let_def dest: bytes_per_sample_Inl)

theorem imgb_parse_rejects_witness:
  "imgb_parse [0x58, 0x4D, 0x47, 0x42, 1, 0, 0, 0, 1, 0, 0, 0, 1, 1, 0, 0, 5] = Inl ValueError
   \<and> imgb_parse [0x49, 0x4D, 0x47, 0x42, 1, 0, 0, 0, 1, 0, 0, 0, 1, 1, 0, 0, 5, 6] = Inl ValueError
   \<and> imgb_parse [0x49, 0x4D, 0x47, 0x42, 1, 0, 0, 0, 1, 0, 0, 0, 1, 1, 0, 0, 5]
       = Inr (1, 1, 1, 1, [5])"
proof -
  have a: "imgb_parse [0x58, 0x4D, 0x47, 0x42, 1, 0, 0, 0, 1, 0, 0, 0, 1, 1, 0, 0, 5]
      = Inl ValueError"
    using imgb_parse_rejects [of "[0x58, 0x4D, 0x47, 0x42, 1, 0, 0, 0, 1, 0, 0, 0, 1, 1, 0, 0, 5]"]
    by (simp add: py_slice_def MAGIC_def)
  have b: "imgb_parse [0x49, 0x4D, 0x47, 0x42, 1, 0, 0, 0, 1, 0, 0, 0, 1, 1, 0, 0, 5, 6]
      = Inl ValueError"
    using imgb_parse_rejects
      [of "[0x49, 0x4D, 0x47, 0x42, 1, 0, 0, 0, 1, 0, 0, 0, 1, 1, 0, 0, 5, 6]"]
    by (simp add: bytes_per_sample_def u32_le_def py_slice_def)
  have c: "imgb_parse [0x49, 0x4D, 0x47, 0x42, 1, 0, 0, 0, 1, 0, 0, 0, 1, 1, 0, 0, 5]
      = Inr (1, 1, 1, 1, [5])"
    by (simp add: imgb_parse_def bytes_per_sample_def u32_le_def py_slice_def MAGIC_def
        ebind_def)
  from a b c show ?thesis by simp
qed

text \<open>
  C1 as stated fails on the Bit\_Manipulation \<open>imgb_parse\<close>: a buffer whose magic is
  \<open>XMGB\<close> and whose payload has two bytes where the header announces one is parsed.
\<close>

theorem imgb_parse_bm_accepts_bad_buffer:
  "py_slice [0x58, 0x4D, 0x47, 0x42, 1, 0, 0, 0, 1, 0, 0, 0, 1, 1, 0, 0, 5, 6 :: byte] 0 4 \<noteq> MAGIC
   \<and> length (drop 16 [0x58, 0x4D, 0x47, 0x42, 1, 0, 0, 0, 1, 0, 0, 0, 1, 1, 0, 0, 5, 6 :: byte])
       \<noteq> 1 * 1 * 1 * 1
   \<and> imgb_parse_bm [0x58, 0x4D, 0x47, 0x42, 1, 0, 0, 0, 1, 0, 0, 0, 1, 1, 0, 0, 5, 6]
       = Inr (1, 1, 1, 1, [5, 6])"
  by (simp add: imgb_parse_bm_def getitem_def u32_le_def py_slice_def MAGIC_def ebind_def)

subsection \<open>The box sum\<close>

lemma efold_append: "efold f (xs @ ys) s = ebind (efold f xs s) (efold f ys)"
  by (induction xs arbitrary: s) (auto simp: ebind_def split: sum.splits)

lemma getitem_nat: "x < length xs \<Longrightarrow> getitem xs (int x) = Inr (xs ! x)"
  by (simp add: getitem_def)

lemma map_upt_update:
  "(map F [0..<n])[i := v] = map (\<lambda>j. if j = i then v else F j) [0..<n]"
  by (rule nth_equalityI) (auto simp: nth_list_update)

lemma integ_row_aux:
  assumes "k \<le> W" "W \<le> length prow" "length ia1 = W + 1"
  shows "integ_row prow ia0 ia1 k =
     Inr (sum_list (take k prow),
          map (\<lambda>j. if j = 0 \<or> k < j then ia1 ! j else ia0 ! j + sum_list (take j prow))
            [0..<W + 1])"
  using assms(1)
proof (induction k)
  case 0
  have "map (\<lambda>j. if j = 0 \<or> 0 < j then ia1 ! j else ia0 ! j + sum_list (take j prow))
          [0..<W + 1] = ia1"
    by (rule nth_equalityI) (use assms(3) in \<open>auto simp del: upt_Suc\<close>)
  then show ?case by (simp add: integ_row_def del: upt_Suc)
next
  case (Suc k)
  then have IH: "integ_row prow ia0 ia1 k =
     Inr (sum_list (take k prow),
          map (\<lambda>j. if j = 0 \<or> k < j then ia1 ! j else ia0 ! j + sum_list (take j prow))
            [0..<W + 1])" by simp
  have k: "k < length prow" using Suc.prems assms(2) by simp
  have tk: "sum_list (take (Suc k) prow) = sum_list (take k prow) + prow ! k"
    using k by (simp add: take_Suc_conv_app_nth)
  have step: "integ_row prow ia0 ia1 (Suc k) =
      ebind (integ_row prow ia0 ia1 k) (\<lambda>(row_sum, ia1).
        ebind (getitem prow (int k)) (\<lambda>v.
          let row_sum = row_sum + v
          in Inr (row_sum, ia1[k + 1 := ia0 ! (k + 1) + row_sum])))"
    unfolding integ_row_def by (simp add: efold_append ebind_def split: sum.splits)
  show ?case
    unfolding step IH
    by (simp add: ebind_def getitem_nat [OF k] map_upt_update tk Let_def del: upt_Suc)
qed


lemma isum_0 [simp]: "isum plane a 0 = 0" "isum plane 0 x = 0"
  by (simp_all add: isum_def)

lemma isum_Suc: "isum plane (Suc a) x = isum plane a x + sum_list (take x (plane ! a))"
  by (simp add: isum_def)

lemma integral_image_aux:
  assumes rect: "\<forall>i<A. W \<le> length (plane ! i)" and k: "k \<le> A"
  shows "efold (integ_step plane W) [0..<k] (replicate (A + 1) (replicate (W + 1) 0)) =
     Inr (map (\<lambda>a. if a \<le> k then map (isum plane a) [0..<W + 1] else replicate (W + 1) 0)
            [0..<A + 1])"
  using k
proof (induction k)
  case 0
  have "map (\<lambda>a. if a \<le> 0 then map (isum plane a) [0..<W + 1] else replicate (W + 1) 0)
            [0..<A + 1] = replicate (A + 1) (replicate (W + 1) 0)"
    by (rule nth_equalityI) (auto simp del: upt_Suc replicate_Suc intro!: nth_equalityI)
  then show ?case by (simp del: upt_Suc replicate_Suc)
next
  case (Suc k)
  let ?S = "map (\<lambda>a. if a \<le> k then map (isum plane a) [0..<W + 1] else replicate (W + 1) 0)
            [0..<A + 1]"
  have IH: "efold (integ_step plane W) [0..<k] (replicate (A + 1) (replicate (W + 1) 0)) = Inr ?S"
    using Suc by simp
  have kA: "k < A" using Suc.prems by simp
  have Sk: "?S ! k = map (isum plane k) [0..<W + 1]"
    using kA by (simp del: upt_Suc)
  have Sk1: "?S ! (k + 1) = replicate (W + 1) 0"
    using kA by (simp del: upt_Suc replicate_Suc)
  have len: "W \<le> length (plane ! k)" using rect kA by simp
  have row: "integ_row (plane ! k) (?S ! k) (?S ! (k + 1)) W =
      Inr (sum_list (take W (plane ! k)), map (isum plane (Suc k)) [0..<W + 1])"
  proof -
    have "map (\<lambda>j. if j = 0 \<or> W < j then replicate (W + 1) (0::int) ! j
                 else map (isum plane k) [0..<W + 1] ! j + sum_list (take j (plane ! k)))
            [0..<W + 1] = map (isum plane (Suc k)) [0..<W + 1]"
      by (rule nth_equalityI) (auto simp: isum_Suc simp del: upt_Suc replicate_Suc)
    then show ?thesis
      unfolding Sk Sk1
      by (subst integ_row_aux [where W = W]) (use len in \<open>simp_all del: upt_Suc replicate_Suc\<close>)
  qed
  have upd: "?S[k + 1 := map (isum plane (Suc k)) [0..<W + 1]] =
      map (\<lambda>a. if a \<le> Suc k then map (isum plane a) [0..<W + 1] else replicate (W + 1) 0)
            [0..<A + 1]"
    unfolding map_upt_update
    by (rule map_cong) (auto simp del: upt_Suc replicate_Suc)
  have "efold (integ_step plane W) [0..<Suc k] (replicate (A + 1) (replicate (W + 1) 0))
      = integ_step plane W k ?S"
    using IH by (simp add: efold_append ebind_def split: sum.splits)
  also have "\<dots> = Inr (?S[k + 1 := map (isum plane (Suc k)) [0..<W + 1]])"
    unfolding integ_step_def row by (simp add: ebind_def)
  finally show ?case unfolding upd .
qed

lemma integral_image_ok:
  assumes "\<forall>i<A. W \<le> length (plane ! i)"
  shows "integral_image plane A W = Inr (map (\<lambda>a. map (isum plane a) [0..<W + 1]) [0..<A + 1])"
proof -
  have "map (\<lambda>a. if a \<le> A then map (isum plane a) [0..<W + 1] else replicate (W + 1) 0)
            [0..<A + 1] = map (\<lambda>a. map (isum plane a) [0..<W + 1]) [0..<A + 1]"
    by (rule map_cong) (auto simp del: upt_Suc replicate_Suc)
  then show ?thesis
    unfolding integral_image_def using integral_image_aux [OF assms, of A] by simp
qed

lemma fold_update_upt:
  "n \<le> length xs \<Longrightarrow>
   fold (\<lambda>i ys. ys[i := g i (ys ! i)]) [0..<n] xs =
     map (\<lambda>i. if i < n then g i (xs ! i) else xs ! i) [0..<length xs]"
proof (induction n)
  case 0
  show ?case by (rule nth_equalityI) auto
next
  case (Suc n)
  then have IH: "fold (\<lambda>i ys. ys[i := g i (ys ! i)]) [0..<n] xs =
     map (\<lambda>i. if i < n then g i (xs ! i) else xs ! i) [0..<length xs]" by simp
  have n: "n < length xs" using Suc.prems by simp
  show ?case
    unfolding upt_Suc_append [OF le0] fold_append o_apply IH
    by (rule nth_equalityI) (use n in \<open>auto simp: nth_list_update less_Suc_eq\<close>)
qed


lemma fold_set_upt:
  "n \<le> length xs \<Longrightarrow>
   fold (\<lambda>i ys. ys[i := h i]) [0..<n] xs =
     map (\<lambda>i. if i < n then h i else xs ! i) [0..<length xs]"
  using fold_update_upt [where g = "\<lambda>i _. h i"] by simp

lemma clamp_cover:
  assumes "x < n" "int n - 1 \<le> r"
  shows "nat (if int x - r < 0 then 0 else int x - r) = 0"
    and "nat ((if int x + r \<ge> int n then int n - 1 else int x + r) + 1) = n"
  using assms by auto

lemma box_row_cover:
  assumes r: "int W - 1 \<le> r" and len: "length orow = W"
  shows "box_row ia0 ia1 r W orow = replicate W (ia1 ! W - ia0 ! W - ia1 ! 0 + ia0 ! 0)"
proof -
  have "fold (\<lambda>x orow. orow[x :=
            ia1 ! nat ((if int x + r \<ge> int W then int W - 1 else int x + r) + 1)
            - ia0 ! nat ((if int x + r \<ge> int W then int W - 1 else int x + r) + 1)
            - ia1 ! nat (if int x - r < 0 then 0 else int x - r)
            + ia0 ! nat (if int x - r < 0 then 0 else int x - r)]) [0..<W] orow
      = replicate W (ia1 ! W - ia0 ! W - ia1 ! 0 + ia0 ! 0)"
  proof (subst fold_set_upt, goal_cases)
    case 1
    show ?case using len by simp
  next
    case 2
    show ?case
    proof (rule nth_equalityI, goal_cases)
      case 1
      show ?case using len by simp
    next
      case (2 i)
      then have i: "i < W" using len by simp
      show ?case
        using i len by (simp only: clamp_cover [OF i r] nth_map_upt nth_replicate
            length_map length_upt minus_nat.diff_0 add_0 if_True)
    qed
  qed
  then show ?thesis
    unfolding box_row_def Let_def .
qed

lemma box_out_cover:
  assumes rW: "int W - 1 \<le> r" and rA: "int A - 1 \<le> r"
  shows "box_out integ r A W =
     replicate A (replicate W (integ ! A ! W - integ ! 0 ! W - integ ! A ! 0 + integ ! 0 ! 0))"
proof -
  let ?c = "integ ! A ! W - integ ! 0 ! W - integ ! A ! 0 + integ ! 0 ! 0"
  have "fold (\<lambda>a out. out[a :=
            box_row (integ ! nat (if int a - r < 0 then 0 else int a - r))
              (integ ! nat ((if int a + r \<ge> int A then int A - 1 else int a + r) + 1))
              r W (out ! a)]) [0..<A] (replicate A (replicate W 0))
      = replicate A (replicate W ?c)"
  proof (subst fold_update_upt, goal_cases)
    case 1
    show ?case by simp
  next
    case 2
    show ?case
    proof (rule nth_equalityI, goal_cases)
      case 1
      show ?case by simp
    next
      case (2 i)
      then have i: "i < A" by simp
      have "box_row (integ ! 0) (integ ! A) r W (replicate A (replicate W 0) ! i)
          = replicate W ?c"
        using i by (subst box_row_cover [OF rW]) simp_all
      then show ?case
        using i by (simp only: clamp_cover [OF i rA] nth_map_upt nth_replicate
            length_map length_upt length_replicate minus_nat.diff_0 add_0 if_True)
    qed
  qed
  then show ?thesis
    unfolding box_out_def Let_def .
qed

lemma isum_total:
  assumes "\<forall>row \<in> set plane. length row = W"
  shows "isum plane (length plane) W = sum_list (map sum_list plane)"
proof -
  have "isum plane (length plane) W = (\<Sum>i<length plane. sum_list (plane ! i))"
    unfolding isum_def using assms by (intro sum.cong) auto
  also have "\<dots> = sum_list (map sum_list plane)"
    by (simp add: sum_list_sum_nth atLeast0LessThan)
  finally show ?thesis .
qed

lemma box_sum_bm_eq: "box_sum_2d_int_bm plane win = box_sum_2d_int plane win"
proof (cases "plane = []")
  case True
  then show ?thesis
    by (simp add: box_sum_2d_int_bm_def box_sum_2d_int_def integral_image_def box_out_def ebind_def)
next
  case False
  then show ?thesis
    by (simp add: box_sum_2d_int_bm_def box_sum_2d_int_def Let_def drop_bit_eq_div)
qed

lemma box_sum_cover:
  assumes rect: "\<forall>row \<in> set plane. length row = W"
    and win: "1 < win" and cover: "int (max (length plane) W) - 1 \<le> win div 2"
  shows "box_sum_2d_int plane win =
     Inr (replicate (length plane) (replicate W (sum_list (map sum_list plane))))"
proof (cases "plane = []")
  case True
  then show ?thesis
    using win by (simp add: box_sum_2d_int_def integral_image_def box_out_def ebind_def)
next
  case False
  then have W0: "length (plane ! 0) = W" using rect by (cases plane) auto
  let ?A = "length plane"
  have rows: "\<forall>i<?A. W \<le> length (plane ! i)" using rect by auto
  have ii: "integral_image plane ?A W =
      Inr (map (\<lambda>a. map (isum plane a) [0..<W + 1]) [0..<?A + 1])"
    using rows by (rule integral_image_ok)
  have rW: "int W - 1 \<le> win div 2" and rA: "int ?A - 1 \<le> win div 2"
    using cover by auto
  have cell: "map (\<lambda>a. map (isum plane a) [0..<W + 1]) [0..<?A + 1] ! a ! x = isum plane a x"
    if "a \<le> ?A" "x \<le> W" for a x
    using that by (simp del: upt_Suc)
  show ?thesis
    using win False
    by (simp add: box_sum_2d_int_def W0 ii ebind_def box_out_cover [OF rW rA] cell
        isum_total [OF rect] del: upt_Suc)
qed

text \<open>
  C9. For every integer plane of \<open>A\<close> rows by \<open>W\<close> columns: with window size 1,
  \<open>_box_sum_2d_int\<close> returns the plane unchanged, and with any window whose half-width
  \<open>win div 2\<close> is at least \<open>max(A, W) - 1\<close> (the clamped window covers the whole plane at
  every position) it returns an \<open>A\<close> by \<open>W\<close> plane holding, at every position, the sum of
  all plane entries. Both copies of the function (No\_Libraries and Bit\_Manipulation
  \<open>disparity.py\<close>) are covered.
\<close>

theorem box_sum_correct:
  assumes rect: "\<forall>row \<in> set plane. length row = W"
  shows "box_sum_2d_int plane 1 = Inr plane \<and> box_sum_2d_int_bm plane 1 = Inr plane
    \<and> (int (max (length plane) W) - 1 \<le> win div 2 \<longrightarrow>
         (\<exists>out. box_sum_2d_int plane win = Inr out \<and> box_sum_2d_int_bm plane win = Inr out
            \<and> length out = length plane
            \<and> (\<forall>a<length plane. length (out ! a) = W
                  \<and> (\<forall>x<W. out ! a ! x = sum_list (map sum_list plane)))))"
proof (intro conjI impI)
  show "box_sum_2d_int plane 1 = Inr plane"
    by (simp add: box_sum_2d_int_def)
  show "box_sum_2d_int_bm plane 1 = Inr plane"
    by (simp add: box_sum_2d_int_bm_def)
next
  assume cover: "int (max (length plane) W) - 1 \<le> win div 2"
  show "\<exists>out. box_sum_2d_int plane win = Inr out \<and> box_sum_2d_int_bm plane win = Inr out
            \<and> length out = length plane
            \<and> (\<forall>a<length plane. length (out ! a) = W
                  \<and> (\<forall>x<W. out ! a ! x = sum_list (map sum_list plane)))"
  proof (cases "1 < win")
    case True
    from box_sum_cover [OF rect True cover] show ?thesis
      by (simp add: box_sum_bm_eq)
  next
    case False
    then have "win div 2 \<le> 0" by simp
    with cover have small: "length plane \<le> 1" "W \<le> 1" by auto
    have ret: "box_sum_2d_int plane win = Inr plane"
      using False by (simp add: box_sum_2d_int_def)
    have "length (plane ! a) = W \<and> (\<forall>x<W. plane ! a ! x = sum_list (map sum_list plane))"
      if "a < length plane" for a
    proof -
      from that small have a0: "a = 0" and p: "plane = [plane ! 0]"
        by (cases plane; simp)+
      have lw: "length (plane ! 0) = W" using rect p by (metis list.set_intros(1))
      show ?thesis
      proof (cases "W = 0")
        case True
        with lw a0 show ?thesis by simp
      next
        case False
        with small have "W = 1" by simp
        with lw obtain v where "plane ! 0 = [v]"
          by (cases "plane ! 0") auto
        with p have "plane = [[v]]" by simp
        then show ?thesis using a0 \<open>W = 1\<close> by simp
      qed
    qed
    then show ?thesis using ret by (simp add: box_sum_bm_eq)
  qed
qed

theorem box_sum_correct_witness:
  "box_sum_2d_int [[1, 2], [3, 4]] 1 = Inr [[1, 2], [3, 4]]
   \<and> box_sum_2d_int_bm [[1, 2], [3, 4]] 1 = Inr [[1, 2], [3, 4]]
   \<and> (\<exists>out. box_sum_2d_int [[1, 2], [3, 4]] 3 = Inr out
          \<and> box_sum_2d_int_bm [[1, 2], [3, 4]] 3 = Inr out
          \<and> length out = 2 \<and> length (out ! 0) = 2 \<and> length (out ! 1) = 2
          \<and> out ! 0 ! 0 = 10 \<and> out ! 0 ! 1 = 10 \<and> out ! 1 ! 0 = 10 \<and> out ! 1 ! 1 = 10)"
proof -
  have rect: "\<forall>row \<in> set [[1, 2], [3, 4 :: int]]. length row = 2" by simp
  note t = box_sum_correct [OF rect, of 3]
  have c: "int (max (length [[1, 2], [3, 4 :: int]]) 2) - 1 \<le> 3 div 2" by simp
  from t c obtain out where o: "box_sum_2d_int [[1, 2], [3, 4]] 3 = Inr out"
      "box_sum_2d_int_bm [[1, 2], [3, 4]] 3 = Inr out" "length out = length [[1, 2], [3, 4 :: int]]"
      and cells: "\<forall>a<length [[1, 2], [3, 4 :: int]]. length (out ! a) = 2
         \<and> (\<forall>x<2. out ! a ! x = sum_list (map sum_list [[1, 2], [3, 4]]))"
    by blast
  have s: "sum_list (map sum_list [[1, 2], [3, 4 :: int]]) = 10" by simp
  have l: "(0::nat) < length [[1, 2], [3, 4 :: int]]" "(1::nat) < length [[1, 2], [3, 4 :: int]]"
    by simp_all
  have x: "(0::nat) < 2" "(1::nat) < 2" by simp_all
  from cells l have r0: "length (out ! 0) = 2" "\<forall>x<2. out ! 0 ! x = 10"
    and r1: "length (out ! 1) = 2" "\<forall>x<2. out ! 1 ! x = 10"
    unfolding s by blast+
  from r0(2) r1(2) x have "out ! 0 ! 0 = 10" "out ! 0 ! 1 = 10" "out ! 1 ! 0 = 10" "out ! 1 ! 1 = 10"
    by blast+
  moreover have "length out = 2" using o(3) by simp
  ultimately show ?thesis
    using t o(1,2) r0(1) r1(1) by blast
qed

subsection \<open>Packed 24-bit samples and loops\<close>

lemma or_bytes:
  "uint (b0 :: byte) OR push_bit 8 (uint (b1 :: byte)) OR push_bit 16 (uint (b2 :: byte))
     = uint b0 + 256 * uint b1 + 65536 * uint b2"
proof -
  have t0: "take_bit 8 (uint b0) = uint b0" and t1: "take_bit 8 (uint b1) = uint b1"
    by (simp_all add: take_bit_int_eq_self_iff uint_bounded [where 'a = 8, simplified])
  have "uint b0 OR push_bit 8 (uint b1) OR push_bit 16 (uint b2)
      = uint b0 OR push_bit 8 (uint b1 OR push_bit 8 (uint b2))"
    by (simp add: push_bit_or or.assoc)
  also have "\<dots> = concat_bit 8 (uint b0) (concat_bit 8 (uint b1) (uint b2))"
    by (simp add: concat_bit_def t0 t1)
  also have "\<dots> = uint b0 + 256 * uint b1 + 65536 * uint b2"
    by (simp add: concat_bit_eq t0 t1 push_bit_eq_mult)
  finally show ?thesis .
qed

lemma u24_read_ok:
  assumes "n + 2 < length p"
  shows "u24_read p (int n) = Inr (u24_at p n)"
  using assms
  by (simp add: u24_read_def getitem_def ebind_def or_bytes u24_at_def nat_add_distrib)

lemma and_255_int: "(u :: int) AND 255 = u mod 256"
  using take_bit_eq_mask [of 8 u] by (simp add: take_bit_eq_mod mask_eq_exp_minus_1)

lemma and_u24_int: "(u :: int) AND 16777215 = u mod 16777216"
  using take_bit_eq_mask [of 24 u] by (simp add: take_bit_eq_mod mask_eq_exp_minus_1)

lemma byte_parts:
  fixes v :: int
  assumes "0 \<le> v" "v < 16777216"
  shows "0 \<le> v mod 256" "v mod 256 \<le> 255" "0 \<le> v div 256 mod 256" "v div 256 mod 256 \<le> 255"
    "0 \<le> v div 65536" "v div 65536 \<le> 255" "v div 65536 mod 256 = v div 65536"
    "v mod 256 + 256 * (v div 256 mod 256) + 65536 * (v div 65536) = v"
proof -
  show "0 \<le> v mod 256" "v mod 256 \<le> 255" "0 \<le> v div 256 mod 256" "v div 256 mod 256 \<le> 255"
    by simp_all
  show a: "0 \<le> v div 65536" using assms(1) by simp
  show b: "v div 65536 \<le> 255" using assms(2) by simp
  show "v div 65536 mod 256 = v div 65536" using a b by simp
  have "v div 256 mod 256 = v div 256 - 256 * (v div 256 div 256)"
    by (simp add: minus_mult_div_eq_mod)
  moreover have "v div 256 div 256 = v div 65536"
    by (simp add: div_mult2_eq [symmetric])
  moreover have "v mod 256 = v - 256 * (v div 256)"
    by (simp add: minus_mult_div_eq_mod)
  ultimately show "v mod 256 + 256 * (v div 256 mod 256) + 65536 * (v div 65536) = v"
    by simp
qed

lemma u24_write_ok:
  assumes "n + 2 < length out"
  shows "u24_write out (int n) u = Inr (put24 out n (u mod 16777216))"
proof -
  define v where "v = u mod 16777216"
  have v: "0 \<le> v" "v < 16777216" by (simp_all add: v_def)
  have s0: "setitem out (int n) (v mod 256) = Inr (out[n := word_of_int (v mod 256)])"
    using assms byte_parts(1,2) [OF v] by (simp add: setitem_def)
  have s1: "setitem (out[n := word_of_int (v mod 256)]) (int n + 1) (v div 256 mod 256)
      = Inr (out[n := word_of_int (v mod 256), n + 1 := word_of_int (v div 256 mod 256)])"
    using assms byte_parts(3,4) [OF v] by (simp add: setitem_def nat_add_distrib)
  have s2: "setitem (out[n := word_of_int (v mod 256), n + 1 := word_of_int (v div 256 mod 256)])
        (int n + 2) (v div 65536 mod 256)
      = Inr (put24 out n v)"
  proof -
    have i: "nat (int n + 2) = n + 2" by simp
    have r: "\<not> (v div 65536 mod 256 < 0 \<or> 255 < v div 65536 mod 256)"
      using byte_parts(5,6,7) [OF v] by simp
    have l: "0 \<le> int n + 2 \<and> int n + 2
        < int (length (out[n := word_of_int (v mod 256), n + 1 := word_of_int (v div 256 mod 256)]))"
      using assms by simp
    show ?thesis
      unfolding setitem_def put24_def by (simp only: r l i if_False if_True simp_thms)
  qed
  have p: "(2::int) ^ 8 = 256" "(2::int) ^ 16 = 65536" by simp_all
  show ?thesis
    unfolding u24_write_def Let_def and_255_int and_u24_int drop_bit_eq_div p v_def [symmetric]
    by (simp only: s0 s1 s2 ebind_def sum.case)
qed

lemma length_put24 [simp]: "length (put24 out n u) = length out"
  by (simp add: put24_def)

lemma uint_byte: "uint (word_of_int (x mod 256) :: byte) = x mod 256"
  by (simp add: uint_word_of_int)

lemma put24_nth:
  assumes "n + 2 < length out"
  shows "put24 out n u ! n = word_of_int (u mod 256)"
    and "put24 out n u ! (n + 1) = word_of_int (u div 256 mod 256)"
    and "put24 out n u ! (n + 2) = word_of_int (u div 65536 mod 256)"
  using assms by (simp_all add: put24_def)

lemma u24_at_put24_same:
  assumes "n + 2 < length out" "0 \<le> u" "u < 16777216"
  shows "u24_at (put24 out n u) n = u"
  unfolding u24_at_def put24_nth [OF assms(1)] uint_byte
  by (simp only: byte_parts(7) [OF assms(2,3)] byte_parts(8) [OF assms(2,3)])

lemma u24_at_put24_other:
  assumes "m + 2 < n \<or> n + 2 < m"
  shows "u24_at (put24 out n u) m = u24_at out m"
  using assms by (auto simp: u24_at_def put24_def)

lemma u24_at_bounds: "0 \<le> u24_at p n \<and> u24_at p n < 16777216"
proof -
  have b: "0 \<le> uint x \<and> uint x \<le> 255" for x :: byte
    using uint_bounded [of x] by simp
  show ?thesis
    unfolding u24_at_def using b [of "p ! n"] b [of "p ! (n + 1)"] b [of "p ! (n + 2)"]
    by linarith
qed

text \<open>A loop over \<open>range(n)\<close> with an invariant: it does not raise, and the invariant holds after it.\<close>

lemma efold_upt_inv:
  assumes init: "I 0 s0"
    and step: "\<And>k s. k < n \<Longrightarrow> I k s \<Longrightarrow> \<exists>s'. f k s = Inr s' \<and> I (Suc k) s'"
  shows "\<exists>s. efold f [0..<n] s0 = Inr s \<and> I n s"
proof -
  have "m \<le> n \<Longrightarrow> \<exists>s. efold f [0..<m] s0 = Inr s \<and> I m s" for m
  proof (induction m)
    case 0
    then show ?case using init by simp
  next
    case (Suc m)
    then obtain s where s: "efold f [0..<m] s0 = Inr s" "I m s" by auto
    from step [OF _ s(2)] Suc.prems obtain s' where "f m s = Inr s'" "I (Suc m) s'" by auto
    with s show ?case by (simp add: efold_append ebind_def)
  qed
  then show ?thesis by simp
qed

subsection \<open>Confidence-weighted fusion\<close>

lemma Q_consts: "Q_ONE = 4096" "push_bit (Q_FRAC - 1) (x :: int) = 2048 * x"
  by (simp_all add: Q_ONE_def Q_FRAC_def push_bit_eq_mult)

lemma mul_q12_nonneg:
  assumes "0 \<le> a" "0 \<le> b"
  shows "0 \<le> mul_q12 a b"
proof -
  have p: "0 \<le> a * b" using assms by simp
  then have "0 \<le> (a * b + 2048) div 4096"
    by (simp add: pos_imp_zdiv_nonneg_iff)
  then show ?thesis
    using p by (simp add: mul_q12_def Let_def drop_bit_eq_div Q_FRAC_def)
qed

lemma pow_q12_loop_nonneg: "0 \<le> r \<Longrightarrow> 0 \<le> b \<Longrightarrow> 0 \<le> pow_q12_loop r b e"
proof (induction r b e rule: pow_q12_loop.induct)
  case (1 result b e)
  show ?case
  proof (cases "e > 0")
    case True
    have "0 \<le> pow_q12_loop (if e AND 1 \<noteq> 0 then mul_q12 result b else result)
          (if drop_bit 1 e \<noteq> 0 then mul_q12 b b else b) (drop_bit 1 e)"
      using True "1.prems" by (intro "1.IH") (auto simp: mul_q12_nonneg)
    then show ?thesis using True by (subst pow_q12_loop.simps) simp
  next
    case False
    then show ?thesis using "1.prems" by (subst pow_q12_loop.simps) simp
  qed
qed

lemma pow_q12_int_nonneg:
  assumes "0 \<le> b"
  shows "0 \<le> pow_q12_int b e"
proof -
  have "0 \<le> pow_q12_loop Q_ONE b e"
    using assms by (intro pow_q12_loop_nonneg) (simp_all add: Q_consts)
  then show ?thesis
    using assms by (simp add: pow_q12_int_def Q_consts(1))
qed

lemma fuse_weight_nonneg:
  assumes "0 \<le> cap"
  shows "0 \<le> fuse_weight c temperature floor cap"
proof -
  have "0 \<le> clamp_q12 (if c < 0 then 0 else c) floor cap"
    using assms by (simp add: clamp_q12_def)
  then show ?thesis
    unfolding fuse_weight_def Let_def by (rule pow_q12_int_nonneg)
qed


lemma bias_q_range: "0 \<le> bias_q q \<and> bias_q q < 16777216"
  by (simp add: bias_q_def U24_MAX_val BIAS_INT_def Let_def)

lemma imgb_make_bm_ok:
  assumes "W < 2 ^ 32" "H < 2 ^ 32"
  shows "imgb_make_bm W H C dtype_code payload =
     Inr (MAGIC @ to_bytes_le_aux 4 W @ to_bytes_le_aux 4 H
          @ [of_nat (C AND 255), of_nat (dtype_code AND 255), 0, 0] @ payload)"
  using assms
  by (simp add: imgb_make_bm_def ebind_def to_bytes_le_def Let_def make_header length_to_bytes_le_aux)

lemma payload_of_made:
  "imbg_parse_payload (MAGIC @ to_bytes_le_aux 4 W @ to_bytes_le_aux 4 H @ [c, d, 0, 0] @ payload)
     = payload"
  by (simp add: imbg_parse_payload_def MAGIC_def length_to_bytes_le_aux)

lemma fuse_step_ok:
  assumes k: "k < N_IMG"
    and len: "OUT_IMG_BYTES \<le> length pZh" "OUT_IMG_BYTES \<le> length pZv"
      "OUT_IMG_BYTES \<le> length pCh" "OUT_IMG_BYTES \<le> length pCv"
    and out: "length out = OUT_IMG_BYTES"
  shows "fuse_step pZh pZv pCh pCv temperature floor cap eps k (out, int (3 * k), int (3 * k)) =
     Inr (put24 out (3 * k)
            (bias_q (fuse_z (u24_at pZh (3 * k) - BIAS_INT) (u24_at pZv (3 * k) - BIAS_INT)
               (u24_at pCh (3 * k) - BIAS_INT) (u24_at pCv (3 * k) - BIAS_INT)
               temperature floor cap eps)),
          int (3 * Suc k), int (3 * Suc k))"
proof -
  have b: "3 * k + 2 < OUT_IMG_BYTES" using k by (simp add: N_IMG_def OUT_IMG_BYTES_def)
  have r: "u24_read pZh (int (3 * k)) = Inr (u24_at pZh (3 * k))"
      "u24_read pZv (int (3 * k)) = Inr (u24_at pZv (3 * k))"
      "u24_read pCh (int (3 * k)) = Inr (u24_at pCh (3 * k))"
      "u24_read pCv (int (3 * k)) = Inr (u24_at pCv (3 * k))"
    by (rule u24_read_ok, use b len in linarith)+
  have m: "bias_q z mod 16777216 = bias_q z" for z
    using bias_q_range [of z] by simp
  have w: "u24_write out (int (3 * k)) (bias_q z) = Inr (put24 out (3 * k) (bias_q z))" for z
    using u24_write_ok [of "3 * k" out "bias_q z"] b out by (simp only: m)
  have i: "int (3 * k) + 3 = int (3 * Suc k)" by simp
  show ?thesis
    unfolding fuse_step_def
    by (simp only: r w ebind_def Let_def BYTES_PER_SAMPLE_def sum.case prod.case i)
qed

lemma fuse_loop_ok:
  assumes len: "OUT_IMG_BYTES \<le> length pZh" "OUT_IMG_BYTES \<le> length pZv"
      "OUT_IMG_BYTES \<le> length pCh" "OUT_IMG_BYTES \<le> length pCv"
  shows "\<exists>out o' i3.
      efold (fuse_step pZh pZv pCh pCv temperature floor cap eps) [0..<N_IMG]
        (replicate OUT_IMG_BYTES 0, 0, 0) = Inr (out, o', i3)
      \<and> length out = OUT_IMG_BYTES
      \<and> (\<forall>j<N_IMG. u24_at out (3 * j) =
            bias_q (fuse_z (u24_at pZh (3 * j) - BIAS_INT) (u24_at pZv (3 * j) - BIAS_INT)
               (u24_at pCh (3 * j) - BIAS_INT) (u24_at pCv (3 * j) - BIAS_INT)
               temperature floor cap eps))"
proof -
  let ?g = "\<lambda>j. bias_q (fuse_z (u24_at pZh (3 * j) - BIAS_INT) (u24_at pZv (3 * j) - BIAS_INT)
               (u24_at pCh (3 * j) - BIAS_INT) (u24_at pCv (3 * j) - BIAS_INT)
               temperature floor cap eps)"
  let ?I = "\<lambda>k (s :: bytes \<times> int \<times> int).
      snd s = (int (3 * k), int (3 * k)) \<and> length (fst s) = OUT_IMG_BYTES
      \<and> (\<forall>j<k. u24_at (fst s) (3 * j) = ?g j)"
  have "\<exists>s. efold (fuse_step pZh pZv pCh pCv temperature floor cap eps) [0..<N_IMG]
        (replicate OUT_IMG_BYTES 0, 0, 0) = Inr s \<and> ?I N_IMG s"
  proof (rule efold_upt_inv [where I = ?I])
    show "?I 0 (replicate OUT_IMG_BYTES 0, 0, 0)" by simp
  next
    fix k s
    assume k: "k < N_IMG" and I: "?I k s"
    obtain out where s: "s = (out, int (3 * k), int (3 * k))"
      using I by (cases s) auto
    have out: "length out = OUT_IMG_BYTES" and old: "\<forall>j<k. u24_at out (3 * j) = ?g j"
      using I s by auto
    have b: "3 * k + 2 < length out" using k out by (simp add: N_IMG_def OUT_IMG_BYTES_def)
    have "u24_at (put24 out (3 * k) (?g k)) (3 * j) = ?g j" if "j < Suc k" for j
    proof (cases "j = k")
      case True
      then show ?thesis
        using b bias_q_range by (simp add: u24_at_put24_same)
    next
      case False
      with that have "3 * j + 2 < 3 * k" by simp
      then show ?thesis
        using old that False by (simp add: u24_at_put24_other)
    qed
    then show "\<exists>s'. fuse_step pZh pZv pCh pCv temperature floor cap eps k s = Inr s'
        \<and> ?I (Suc k) s'"
      unfolding s fuse_step_ok [OF k len out] using out by simp
  qed
  then show ?thesis by auto
qed

lemma fuse_function_ok:
  assumes len: "OUT_IMG_BYTES \<le> length (imbg_parse_payload Z_h)"
      "OUT_IMG_BYTES \<le> length (imbg_parse_payload Z_v)"
      "OUT_IMG_BYTES \<le> length (imbg_parse_payload C_h)"
      "OUT_IMG_BYTES \<le> length (imbg_parse_payload C_v)"
  shows "\<exists>blob. fuse_disparity_precision_bm Z_h Z_v C_h C_v temperature floor cap eps = Inr blob
      \<and> length (imbg_parse_payload blob) = OUT_IMG_BYTES
      \<and> (\<forall>j<N_IMG. u24_at (imbg_parse_payload blob) (3 * j) =
            bias_q (fuse_z (u24_at (imbg_parse_payload Z_h) (3 * j) - BIAS_INT)
               (u24_at (imbg_parse_payload Z_v) (3 * j) - BIAS_INT)
               (u24_at (imbg_parse_payload C_h) (3 * j) - BIAS_INT)
               (u24_at (imbg_parse_payload C_v) (3 * j) - BIAS_INT)
               temperature floor cap eps))"
proof -
  from fuse_loop_ok [OF len, of temperature floor cap eps]
  obtain out o' i3 where
    run: "efold (fuse_step (imbg_parse_payload Z_h) (imbg_parse_payload Z_v)
            (imbg_parse_payload C_h) (imbg_parse_payload C_v) temperature floor cap eps)
          [0..<N_IMG] (replicate OUT_IMG_BYTES 0, 0, 0) = Inr (out, o', i3)"
    and out: "length out = OUT_IMG_BYTES"
    and px: "\<forall>j<N_IMG. u24_at out (3 * j) =
            bias_q (fuse_z (u24_at (imbg_parse_payload Z_h) (3 * j) - BIAS_INT)
               (u24_at (imbg_parse_payload Z_v) (3 * j) - BIAS_INT)
               (u24_at (imbg_parse_payload C_h) (3 * j) - BIAS_INT)
               (u24_at (imbg_parse_payload C_v) (3 * j) - BIAS_INT)
               temperature floor cap eps)"
    by (elim exE conjE)
  define hdr where "hdr = MAGIC @ to_bytes_le_aux 4 WH_SIZE @ to_bytes_le_aux 4 WH_SIZE
          @ [of_nat (1 AND 255), of_nat (4 AND 255), 0, 0 :: byte]"
  have w: "WH_SIZE < 2 ^ 32" by (simp add: WH_SIZE_def)
  have mk: "imgb_make_bm WH_SIZE WH_SIZE 1 4 out = Inr (hdr @ out)"
    unfolding hdr_def imgb_make_bm_ok [OF w w] by simp
  have pl: "imbg_parse_payload (hdr @ out) = out"
    unfolding hdr_def by (simp add: imbg_parse_payload_def MAGIC_def length_to_bytes_le_aux)
  have res: "fuse_disparity_precision_bm Z_h Z_v C_h C_v temperature floor cap eps = Inr (hdr @ out)"
    unfolding fuse_disparity_precision_bm_def Let_def run
    by (simp only: ebind_def sum.case prod.case mk)
  show ?thesis
  proof (intro exI conjI)
    show "fuse_disparity_precision_bm Z_h Z_v C_h C_v temperature floor cap eps = Inr (hdr @ out)"
      by (rule res)
    show "length (imbg_parse_payload (hdr @ out)) = OUT_IMG_BYTES"
      unfolding pl by (rule out)
    show "\<forall>j<N_IMG. u24_at (imbg_parse_payload (hdr @ out)) (3 * j) =
            bias_q (fuse_z (u24_at (imbg_parse_payload Z_h) (3 * j) - BIAS_INT)
               (u24_at (imbg_parse_payload Z_v) (3 * j) - BIAS_INT)
               (u24_at (imbg_parse_payload C_h) (3 * j) - BIAS_INT)
               (u24_at (imbg_parse_payload C_v) (3 * j) - BIAS_INT)
               temperature floor cap eps)"
      unfolding pl by (rule px)
  qed
qed

lemma fuse_blend_bounds_aux:
  fixes ph pv eps zh zv :: int
  assumes "0 \<le> ph" "0 \<le> pv" "0 \<le> eps"
  shows "(ph + pv + eps) * min (min zh zv) 0 \<le> ph * zh + pv * zv"
    and "ph * zh + pv * zv \<le> (ph + pv + eps) * max (max zh zv) 0"
proof -
  let ?m = "min (min zh zv) 0" and ?M = "max (max zh zv) 0"
  have a1: "ph * ?m \<le> ph * zh" by (rule mult_left_mono) (use assms in simp_all)
  have a2: "pv * ?m \<le> pv * zv" by (rule mult_left_mono) (use assms in simp_all)
  have a3: "eps * ?m \<le> 0" by (rule mult_nonneg_nonpos) (use assms in simp_all)
  have d1: "(ph + pv + eps) * ?m = ph * ?m + pv * ?m + eps * ?m" by (simp only: distrib_right)
  from a1 a2 a3 show "(ph + pv + eps) * ?m \<le> ph * zh + pv * zv"
    unfolding d1 by linarith
  have b1: "ph * zh \<le> ph * ?M" by (rule mult_left_mono) (use assms in simp_all)
  have b2: "pv * zv \<le> pv * ?M" by (rule mult_left_mono) (use assms in simp_all)
  have b3: "0 \<le> eps * ?M" by (rule mult_nonneg_nonneg) (use assms in simp_all)
  have d2: "(ph + pv + eps) * ?M = ph * ?M + pv * ?M + eps * ?M" by (simp only: distrib_right)
  from b1 b2 b3 show "ph * zh + pv * zv \<le> (ph + pv + eps) * ?M"
    unfolding d2 by linarith
qed

lemma sample_of_Inr: "sample_of (Inr blob) j = Some (u24_at (imbg_parse_payload blob) (3 * j) - BIAS_INT)"
  by (simp add: sample_of_def)

lemma payload_concrete:
  "imbg_parse_payload (replicate 16 0 @ [a, b, c] @ replicate n 0) = [a, b, c] @ replicate n 0"
  by (simp add: imbg_parse_payload_def)

lemma sample0_concrete:
  "u24_at (a # b # c # xs) 0 = uint a + 256 * uint b + 65536 * uint c"
  by (simp add: u24_at_def)

lemma fuse_z_example: "fuse_z 4096 4096 0 0 4 1 4096 1 = 2048"
  by (simp add: fuse_z_def fuse_num_def fuse_den_def fuse_weight_def clamp_q12_def
      pow_q12_int_def pow_q12_loop.simps mul_q12_def Q_consts Q_FRAC_def Let_def)

text \<open>
  C3 as stated fails. With the default parameters (temperature 4, floor 1, cap 4096, eps 1),
  a pixel where both axis disparities decode to 4096 (1.0) and both confidences decode to 0
  gets the fused value 2048: both weights round to 0, the denominator is \<open>eps\<close> alone, and
  the blend is pulled to 0, outside \<open>[4096, 4096]\<close>.
\<close>

theorem fuse_output_outside_inputs:
  "sample_of (Inr (replicate 16 0 @ [0, 16, 128] @ replicate 786429 0)) 0 = Some 4096
   \<and> sample_of (fuse_disparity_precision_bm
         (replicate 16 0 @ [0, 16, 128] @ replicate 786429 0)
         (replicate 16 0 @ [0, 16, 128] @ replicate 786429 0)
         (replicate 16 0 @ [0, 0, 128] @ replicate 786429 0)
         (replicate 16 0 @ [0, 0, 128] @ replicate 786429 0) 4 1 4096 1) 0 = Some 2048"
proof -
  let ?Z = "replicate 16 0 @ [0, 16, 128] @ replicate 786429 (0 :: byte)"
  let ?C = "replicate 16 0 @ [0, 0, 128] @ replicate 786429 (0 :: byte)"
  have lz: "OUT_IMG_BYTES \<le> length (imbg_parse_payload ?Z)"
    and lc: "OUT_IMG_BYTES \<le> length (imbg_parse_payload ?C)"
    unfolding payload_concrete by (simp_all add: OUT_IMG_BYTES_def)
  have z: "u24_at (imbg_parse_payload ?Z) (3 * 0) - BIAS_INT = 4096"
    and c: "u24_at (imbg_parse_payload ?C) (3 * 0) - BIAS_INT = 0"
    unfolding payload_concrete by (simp_all add: sample0_concrete BIAS_INT_def)
  from fuse_function_ok [OF lz lz lc lc, of 4 1 4096 1]
  obtain blob where b: "fuse_disparity_precision_bm ?Z ?Z ?C ?C 4 1 4096 1 = Inr blob"
    and px: "\<forall>j<N_IMG. u24_at (imbg_parse_payload blob) (3 * j) =
            bias_q (fuse_z (u24_at (imbg_parse_payload ?Z) (3 * j) - BIAS_INT)
               (u24_at (imbg_parse_payload ?Z) (3 * j) - BIAS_INT)
               (u24_at (imbg_parse_payload ?C) (3 * j) - BIAS_INT)
               (u24_at (imbg_parse_payload ?C) (3 * j) - BIAS_INT) 4 1 4096 1)"
    by (elim exE conjE)
  have "0 < N_IMG" by (simp add: N_IMG_def)
  with px have "u24_at (imbg_parse_payload blob) (3 * 0) =
      bias_q (fuse_z (u24_at (imbg_parse_payload ?Z) (3 * 0) - BIAS_INT)
               (u24_at (imbg_parse_payload ?Z) (3 * 0) - BIAS_INT)
               (u24_at (imbg_parse_payload ?C) (3 * 0) - BIAS_INT)
               (u24_at (imbg_parse_payload ?C) (3 * 0) - BIAS_INT) 4 1 4096 1)"
    by blast
  then have "u24_at (imbg_parse_payload blob) (3 * 0) = bias_q 2048"
    unfolding z c fuse_z_example .
  then have o: "u24_at (imbg_parse_payload blob) (3 * 0) - BIAS_INT = 2048"
    by (simp add: bias_q_def BIAS_INT_def U24_MAX_val Let_def)
  show ?thesis
    unfolding b sample_of_Inr o z by simp
qed

text \<open>
  C3, as amended. For \<open>cap \<ge> 0\<close> and \<open>eps \<ge> 0\<close>, any temperature and floor, and four
  input maps of the pipeline's size, \<open>fuse_disparity_precision\<close> (Bit\_Manipulation) returns
  a map whose sample at every pixel is the biased, saturated quotient the code forms from
  \<open>num = p_h * z_h + p_v * z_v\<close> and \<open>den = p_h + p_v + eps\<close>, and the exact blend
  \<open>num / den\<close> lies between \<open>min(z_h, z_v, 0)\<close> and \<open>max(z_h, z_v, 0)\<close>: the weights are
  not negative, and \<open>eps\<close> in the denominator pulls the blend towards 0.
\<close>

theorem fuse_blend_within_bounds:
  assumes cap: "0 \<le> cap" and eps: "0 \<le> eps"
    and len: "OUT_IMG_BYTES \<le> length (imbg_parse_payload Z_h)"
      "OUT_IMG_BYTES \<le> length (imbg_parse_payload Z_v)"
      "OUT_IMG_BYTES \<le> length (imbg_parse_payload C_h)"
      "OUT_IMG_BYTES \<le> length (imbg_parse_payload C_v)"
    and j: "j < N_IMG"
    and zh: "sample_of (Inr Z_h) j = Some zh" and zv: "sample_of (Inr Z_v) j = Some zv"
    and ch: "sample_of (Inr C_h) j = Some ch" and cv: "sample_of (Inr C_v) j = Some cv"
  shows "sample_of (fuse_disparity_precision_bm Z_h Z_v C_h C_v temperature floor cap eps) j
       = Some (bias_q (fuse_z zh zv ch cv temperature floor cap eps) - BIAS_INT)
     \<and> fuse_den ch cv temperature floor cap eps * min (min zh zv) 0
         \<le> fuse_num zh zv ch cv temperature floor cap
     \<and> fuse_num zh zv ch cv temperature floor cap
         \<le> fuse_den ch cv temperature floor cap eps * max (max zh zv) 0"
proof (intro conjI)
  from fuse_function_ok [OF len, of temperature floor cap eps]
  obtain blob where b: "fuse_disparity_precision_bm Z_h Z_v C_h C_v temperature floor cap eps
        = Inr blob"
    and px: "\<forall>j<N_IMG. u24_at (imbg_parse_payload blob) (3 * j) =
            bias_q (fuse_z (u24_at (imbg_parse_payload Z_h) (3 * j) - BIAS_INT)
               (u24_at (imbg_parse_payload Z_v) (3 * j) - BIAS_INT)
               (u24_at (imbg_parse_payload C_h) (3 * j) - BIAS_INT)
               (u24_at (imbg_parse_payload C_v) (3 * j) - BIAS_INT)
               temperature floor cap eps)"
    by (elim exE conjE)
  have v: "u24_at (imbg_parse_payload Z_h) (3 * j) - BIAS_INT = zh"
      "u24_at (imbg_parse_payload Z_v) (3 * j) - BIAS_INT = zv"
      "u24_at (imbg_parse_payload C_h) (3 * j) - BIAS_INT = ch"
      "u24_at (imbg_parse_payload C_v) (3 * j) - BIAS_INT = cv"
    using zh zv ch cv unfolding sample_of_Inr by simp_all
  have "u24_at (imbg_parse_payload blob) (3 * j) =
      bias_q (fuse_z zh zv ch cv temperature floor cap eps)"
    using px [rule_format, OF j] unfolding v .
  then show "sample_of (fuse_disparity_precision_bm Z_h Z_v C_h C_v temperature floor cap eps) j
       = Some (bias_q (fuse_z zh zv ch cv temperature floor cap eps) - BIAS_INT)"
    unfolding b sample_of_Inr by simp
next
  have w: "0 \<le> fuse_weight ch temperature floor cap" "0 \<le> fuse_weight cv temperature floor cap"
    using cap by (simp_all add: fuse_weight_nonneg)
  show "fuse_den ch cv temperature floor cap eps * min (min zh zv) 0
         \<le> fuse_num zh zv ch cv temperature floor cap"
    unfolding fuse_den_def fuse_num_def by (rule fuse_blend_bounds_aux(1) [OF w eps])
  show "fuse_num zh zv ch cv temperature floor cap
         \<le> fuse_den ch cv temperature floor cap eps * max (max zh zv) 0"
    unfolding fuse_den_def fuse_num_def by (rule fuse_blend_bounds_aux(2) [OF w eps])
qed

theorem fuse_blend_within_bounds_witness:
  "sample_of (fuse_disparity_precision_bm
         (replicate 16 0 @ [0, 16, 128] @ replicate 786429 0)
         (replicate 16 0 @ [0, 32, 128] @ replicate 786429 0)
         (replicate 16 0 @ [0, 16, 128] @ replicate 786429 0)
         (replicate 16 0 @ [0, 0, 128] @ replicate 786429 0) 4 1 4096 1) 0
       = Some (bias_q (fuse_z 4096 8192 4096 0 4 1 4096 1) - BIAS_INT)
   \<and> fuse_den 4096 0 4 1 4096 1 * min (min 4096 8192) 0 \<le> fuse_num 4096 8192 4096 0 4 1 4096
   \<and> fuse_num 4096 8192 4096 0 4 1 4096 \<le> fuse_den 4096 0 4 1 4096 1 * max (max 4096 8192) 0"
proof -
  let ?Zh = "replicate 16 0 @ [0, 16, 128] @ replicate 786429 (0 :: byte)"
  let ?Zv = "replicate 16 0 @ [0, 32, 128] @ replicate 786429 (0 :: byte)"
  let ?C = "replicate 16 0 @ [0, 0, 128] @ replicate 786429 (0 :: byte)"
  have l: "OUT_IMG_BYTES \<le> length (imbg_parse_payload ?Zh)"
      "OUT_IMG_BYTES \<le> length (imbg_parse_payload ?Zv)"
      "OUT_IMG_BYTES \<le> length (imbg_parse_payload ?C)"
    unfolding payload_concrete by (simp_all add: OUT_IMG_BYTES_def)
  have s: "sample_of (Inr ?Zh) 0 = Some 4096" "sample_of (Inr ?Zv) 0 = Some 8192"
      "sample_of (Inr ?C) 0 = Some 0"
    unfolding sample_of_Inr payload_concrete by (simp_all add: sample0_concrete BIAS_INT_def)
  have n: "0 < N_IMG" by (simp add: N_IMG_def)
  show ?thesis
    using fuse_blend_within_bounds [of 4096 1 ?Zh ?Zv ?Zh ?C 0 4096 8192 4096 0 4 1,
        OF _ _ l(1) l(2) l(1) l(3) n s(1) s(2) s(1) s(3)]
    by simp
qed

subsection \<open>The EPI builder\<close>

lemma length_py_slice: "b \<le> length xs \<Longrightarrow> length (py_slice xs a b) = b - a"
  by (simp add: py_slice_def)

lemma nth_py_slice: "a + i < b \<Longrightarrow> b \<le> length xs \<Longrightarrow> py_slice xs a b ! i = xs ! (a + i)"
  by (simp add: py_slice_def)

lemma length_set_slice:
  "a + length ys = b \<Longrightarrow> b \<le> length xs \<Longrightarrow> length (set_slice xs a b ys) = length xs"
  by (auto simp: set_slice_def)

lemma take_set_slice:
  "a + length ys = b \<Longrightarrow> b \<le> length xs \<Longrightarrow> take b (set_slice xs a b ys) = take a xs @ ys"
  by (auto simp: set_slice_def)

lemma epi_h_loop:
  assumes U: "U \<le> length h_stack"
    and fr: "\<forall>u<U. row_base + row_bytes \<le> length (h_stack ! u)"
  shows "efold (epi_h_step h_stack row_bytes row_base) [0..<U] (replicate (U * row_bytes) 0, 0)
     = Inr (concat (map (\<lambda>u. py_slice (h_stack ! u) row_base (row_base + row_bytes)) [0..<U]),
            U * row_bytes)"
proof -
  let ?sl = "\<lambda>u. py_slice (h_stack ! u) row_base (row_base + row_bytes)"
  let ?I = "\<lambda>k (s :: bytes \<times> nat). snd s = k * row_bytes \<and> length (fst s) = U * row_bytes
      \<and> take (k * row_bytes) (fst s) = concat (map ?sl [0..<k])"
  have "\<exists>s. efold (epi_h_step h_stack row_bytes row_base) [0..<U] (replicate (U * row_bytes) 0, 0)
      = Inr s \<and> ?I U s"
  proof (rule efold_upt_inv [where I = ?I])
    show "?I 0 (replicate (U * row_bytes) 0, 0)" by simp
  next
    fix k s
    assume k: "k < U" and I: "?I k s"
    obtain out where s: "s = (out, k * row_bytes)" using I by (cases s) auto
    have out: "length out = U * row_bytes"
      and tk: "take (k * row_bytes) out = concat (map ?sl [0..<k])"
      using I s by auto
    have ls: "length (?sl k) = row_bytes"
      using fr k by (simp add: length_py_slice)
    have "Suc k * row_bytes \<le> U * row_bytes"
      using k by (intro mult_le_mono1) simp
    then have le: "k * row_bytes + row_bytes \<le> length out" using out by simp
    have g: "getitem h_stack (int k) = Inr (h_stack ! k)"
      using k U by (simp add: getitem_nat)
    have st: "epi_h_step h_stack row_bytes row_base k s
        = Inr (set_slice out (k * row_bytes) (k * row_bytes + row_bytes) (?sl k),
               k * row_bytes + row_bytes)"
      unfolding epi_h_step_def s by (simp add: g ebind_def)
    have l': "length (set_slice out (k * row_bytes) (k * row_bytes + row_bytes) (?sl k))
        = U * row_bytes"
      using length_set_slice [of "k * row_bytes" "?sl k" "k * row_bytes + row_bytes" out] ls le out
      by simp
    have t': "take (Suc k * row_bytes)
          (set_slice out (k * row_bytes) (k * row_bytes + row_bytes) (?sl k))
        = concat (map ?sl [0..<Suc k])"
      using take_set_slice [of "k * row_bytes" "?sl k" "k * row_bytes + row_bytes" out] ls le tk
      by (simp add: add.commute)
    show "\<exists>s'. epi_h_step h_stack row_bytes row_base k s = Inr s' \<and> ?I (Suc k) s'"
      unfolding st using l' t' by simp
  qed
  then obtain out where r: "efold (epi_h_step h_stack row_bytes row_base) [0..<U]
        (replicate (U * row_bytes) 0, 0) = Inr (out, U * row_bytes)"
    and "length out = U * row_bytes"
    and "take (U * row_bytes) out = concat (map ?sl [0..<U])"
    by (metis prod.collapse)
  then have "out = concat (map ?sl [0..<U])" by simp
  with r show ?thesis by simp
qed

lemma block_index: "u < n \<Longrightarrow> i < m \<Longrightarrow> u * m + i < n * (m :: nat)"
proof -
  assume u: "u < n" and i: "i < m"
  have "u * m + i < Suc u * m" using i by simp
  also have "\<dots> \<le> n * m" using u by (intro mult_le_mono1) simp
  finally show ?thesis .
qed

lemma length_concat_blocks:
  "\<forall>u<n. length (f u) = m \<Longrightarrow> length (concat (map f [0..<n])) = n * m"
  by (induction n) simp_all

lemma nth_concat_blocks:
  assumes "\<forall>u<n. length (f u) = m" "u < n" "i < m"
  shows "concat (map f [0..<n]) ! (u * m + i) = f u ! i"
  using assms
proof (induction n)
  case 0
  then show ?case by simp
next
  case (Suc n)
  have len: "length (concat (map f [0..<n])) = n * m"
    using Suc.prems(1) by (intro length_concat_blocks) simp
  show ?case
  proof (cases "u < n")
    case True
    then have lt: "u * m + i < n * m" using Suc.prems(3) by (rule block_index)
    have "concat (map f [0..<n]) ! (u * m + i) = f u ! i"
      using Suc.prems True by (intro Suc.IH) simp_all
    then show ?thesis using lt len by (simp add: nth_append)
  next
    case False
    with Suc.prems(2) have "u = n" by simp
    then show ?thesis using len Suc.prems(3) by (simp add: nth_append)
  qed
qed

lemma fold_upt_inv:
  assumes "I 0 s0" and "\<And>k s. k < n \<Longrightarrow> I k s \<Longrightarrow> I (Suc k) (f k s)"
  shows "I n (fold f [0..<n] s0)"
proof -
  have "m \<le> n \<Longrightarrow> I m (fold f [0..<m] s0)" for m
    by (induction m) (use assms in auto)
  then show ?thesis by simp
qed

lemma epi_h_row_ok:
  assumes U: "U \<le> length h_stack" and W32: "W < 2 ^ 32" and U32: "U < 2 ^ 32"
    and fr: "\<forall>u<U. (y + 1) * (W * 9) \<le> length (h_stack ! u)"
  shows "\<exists>blob. epi_h_row h_stack W U y = Inr blob
      \<and> imgb_parse blob
          = Inr (W, U, 3, 4,
                 concat (map (\<lambda>u. py_slice (h_stack ! u) (y * (W * 9)) (y * (W * 9) + W * 9))
                   [0..<U]))"
proof -
  let ?rb = "W * 9"
  let ?out = "concat (map (\<lambda>u. py_slice (h_stack ! u) (y * ?rb) (y * ?rb + ?rb)) [0..<U])"
  have fr': "\<forall>u<U. y * ?rb + ?rb \<le> length (h_stack ! u)"
    using fr by (simp add: add.commute)
  have loop: "efold (epi_h_step h_stack ?rb (y * ?rb)) [0..<U] (replicate (U * ?rb) 0, 0)
      = Inr (?out, U * ?rb)"
    using U fr' by (rule epi_h_loop)
  have bl: "\<forall>u<U. length (py_slice (h_stack ! u) (y * ?rb) (y * ?rb + ?rb)) = ?rb"
    using fr' by (simp add: length_py_slice)
  have len: "length ?out = W * U * 3 * 3"
    using length_concat_blocks [OF bl] by simp
  have bps: "bytes_per_sample 4 = Inr 3" by (simp add: bytes_per_sample_def)
  from imgb_make_then_parse [OF W32 U32 _ _ bps len]
  obtain buf where "imgb_make W U 3 4 ?out = Inr buf"
      "imgb_parse buf = Inr (W, U, 3, 4, ?out)" by auto
  then show ?thesis
    unfolding epi_h_row_def Let_def by (simp add: loop ebind_def)
qed

lemma epi_v_inner_length:
  assumes "out_i + 9 * H \<le> length out" and "H = 0 \<or> src + rb * (H - 1) + 9 \<le> length frame"
  shows "\<exists>out' src'. epi_v_inner frame 9 rb H (out, out_i, src) = (out', out_i + 9 * H, src')
      \<and> length out' = length out"
proof -
  let ?I = "\<lambda>k (s :: bytes \<times> nat \<times> nat).
      length (fst s) = length out \<and> fst (snd s) = out_i + 9 * k \<and> snd (snd s) = src + rb * k"
  have "?I H (epi_v_inner frame 9 rb H (out, out_i, src))"
    unfolding epi_v_inner_def
  proof (rule fold_upt_inv [where I = ?I])
    show "?I 0 (out, out_i, src)" by simp
  next
    fix k and s :: "bytes \<times> nat \<times> nat"
    assume k: "k < H" and I: "?I k s"
    obtain o1 where s: "s = (o1, out_i + 9 * k, src + rb * k)" and l: "length o1 = length out"
      using I by (cases s) auto
    have "k \<le> H - 1" using k by linarith
    then have m: "rb * k \<le> rb * (H - 1)" by (rule mult_le_mono2)
    have "H \<noteq> 0" using k by simp
    with assms(2) have a: "src + rb * (H - 1) + 9 \<le> length frame" by simp
    from a m have f: "src + rb * k + 9 \<le> length frame" by linarith
    have ls: "length (py_slice frame (src + rb * k) (src + rb * k + 9)) = 9"
      using f by (simp add: length_py_slice)
    have "9 * Suc k \<le> 9 * H" using k by simp
    then have o: "out_i + 9 * k + 9 \<le> length o1" using assms(1) l by simp
    have "length (set_slice o1 (out_i + 9 * k) (out_i + 9 * k + 9)
          (py_slice frame (src + rb * k) (src + rb * k + 9))) = length out"
      using length_set_slice [where xs = o1 and a = "out_i + 9 * k" and b = "out_i + 9 * k + 9"
          and ys = "py_slice frame (src + rb * k) (src + rb * k + 9)"] ls l o
      by simp
    then show "?I (Suc k) (case s of (out, out_i, src) \<Rightarrow>
        (set_slice out out_i (out_i + 9) (py_slice frame src (src + 9)), out_i + 9, src + rb))"
      unfolding s by simp
  qed
  then show ?thesis
    by (cases "epi_v_inner frame 9 rb H (out, out_i, src)") auto
qed

lemma epi_v_col_ok:
  assumes V: "V \<le> length v_stack" and H32: "H < 2 ^ 32" and V32: "V < 2 ^ 32" and x: "x < W"
    and fr: "\<forall>v<V. H * W * 9 \<le> length (v_stack ! v)"
  shows "\<exists>blob. epi_v_col v_stack H W V x = Inr blob"
proof -
  let ?I = "\<lambda>k (s :: bytes \<times> nat). length (fst s) = V * H * 9 \<and> snd s = 9 * H * k"
  have "\<exists>s. efold (epi_v_step v_stack 9 (W * 9) H (x * 9)) [0..<V] (replicate (V * H * 9) 0, 0)
      = Inr s \<and> ?I V s"
  proof (rule efold_upt_inv [where I = ?I])
    show "?I 0 (replicate (V * H * 9) 0, 0)" by simp
  next
    fix k s
    assume k: "k < V" and I: "?I k s"
    obtain out where s: "s = (out, 9 * H * k)" and l: "length out = V * H * 9"
      using I by (cases s) auto
    have g: "getitem v_stack (int k) = Inr (v_stack ! k)"
      using k V by (simp add: getitem_nat)
    have "9 * H * Suc k \<le> 9 * H * V" using k by (intro mult_le_mono2) simp
    then have o: "9 * H * k + 9 * H \<le> length out" using l by (simp add: algebra_simps)
    have f: "H = 0 \<or> x * 9 + W * 9 * (H - 1) + 9 \<le> length (v_stack ! k)"
    proof (cases "H = 0")
      case True
      then show ?thesis by simp
    next
      case False
      have "x * 9 + 9 \<le> W * 9" using x by simp
      then have "x * 9 + W * 9 * (H - 1) + 9 \<le> W * 9 * (H - 1) + W * 9" by simp
      also have "\<dots> = W * 9 * H" using False by (cases H) simp_all
      also have "\<dots> \<le> length (v_stack ! k)" using fr k by (simp add: algebra_simps)
      finally show ?thesis by simp
    qed
    from epi_v_inner_length [OF o f]
    obtain out' src' where
      inner: "epi_v_inner (v_stack ! k) 9 (W * 9) H (out, 9 * H * k, x * 9)
          = (out', 9 * H * k + 9 * H, src')"
      and l': "length out' = length out" by auto
    have "epi_v_step v_stack 9 (W * 9) H (x * 9) k s = Inr (out', 9 * H * k + 9 * H)"
      unfolding epi_v_step_def s by (simp add: g ebind_def inner)
    then show "\<exists>s'. epi_v_step v_stack 9 (W * 9) H (x * 9) k s = Inr s' \<and> ?I (Suc k) s'"
      using l l' by simp
  qed
  then obtain out out_i where
    loop: "efold (epi_v_step v_stack 9 (W * 9) H (x * 9)) [0..<V] (replicate (V * H * 9) 0, 0)
        = Inr (out, out_i)"
    and l: "length out = V * H * 9" by auto
  have bps: "bytes_per_sample 4 = Inr 3" by (simp add: bytes_per_sample_def)
  have len: "length out = H * V * 3 * 3" using l by (simp add: algebra_simps)
  from imgb_make_then_parse [OF H32 V32 _ _ bps len]
  obtain buf where "imgb_make H V 3 4 out = Inr buf" by auto
  then show ?thesis
    unfolding epi_v_col_def Let_def by (simp add: loop ebind_def)
qed

lemma efold_collect:
  assumes "\<forall>y\<in>set ys. \<exists>b. f y = Inr b \<and> P y b"
  shows "\<exists>bs. efold (\<lambda>y acc. ebind (f y) (\<lambda>b. Inr (acc @ [b]))) ys start = Inr (start @ bs)
      \<and> length bs = length ys \<and> (\<forall>i<length ys. P (ys ! i) (bs ! i))"
  using assms
proof (induction ys arbitrary: start)
  case Nil
  then show ?case by simp
next
  case (Cons y ys)
  then obtain b where b: "f y = Inr b" "P y b" by auto
  from Cons.IH [of "start @ [b]"] Cons.prems
  obtain bs where bs: "efold (\<lambda>y acc. ebind (f y) (\<lambda>b. Inr (acc @ [b]))) ys (start @ [b])
        = Inr ((start @ [b]) @ bs)"
    "length bs = length ys" "\<forall>i<length ys. P (ys ! i) (bs ! i)" by auto
  have "\<forall>i<length (y # ys). P ((y # ys) ! i) ((b # bs) ! i)"
    using b(2) bs(3) by (auto simp: nth_Cons split: nat.splits)
  then show ?case
    using b(1) bs(1,2) by (intro exI [of _ "b # bs"]) (simp add: ebind_def)
qed

lemma epi_h_row_cells:
  assumes U: "U \<le> length h_stack" and W32: "W < 2 ^ 32" and U32: "U < 2 ^ 32"
    and fr: "\<forall>u<U. H * W * 9 \<le> length (h_stack ! u)" and y: "y < H"
  shows "\<exists>blob. epi_h_row h_stack W U y = Inr blob
      \<and> (\<exists>payload. imgb_parse blob = Inr (W, U, 3, 4, payload)
            \<and> length payload = U * W * 9
            \<and> (\<forall>u<U. \<forall>x<W. \<forall>k<9.
                  payload ! ((u * W + x) * 9 + k) = (h_stack ! u) ! ((y * W + x) * 9 + k)))"
proof -
  let ?rb = "W * 9"
  let ?sl = "\<lambda>u. py_slice (h_stack ! u) (y * ?rb) (y * ?rb + ?rb)"
  have "(y + 1) * ?rb \<le> H * ?rb" using y by (intro mult_le_mono1) simp
  then have fr': "\<forall>u<U. (y + 1) * ?rb \<le> length (h_stack ! u)"
    using fr by (auto simp: algebra_simps intro: order_trans)
  from epi_h_row_ok [OF U W32 U32 fr']
  obtain blob where b: "epi_h_row h_stack W U y = Inr blob"
    and p: "imgb_parse blob = Inr (W, U, 3, 4, concat (map ?sl [0..<U]))" by auto
  have fr'': "\<forall>u<U. y * ?rb + ?rb \<le> length (h_stack ! u)"
    using fr' by (simp add: algebra_simps)
  have bl: "\<forall>u<U. length (?sl u) = ?rb"
    using fr'' by (simp add: length_py_slice)
  have len: "length (concat (map ?sl [0..<U])) = U * W * 9"
    using length_concat_blocks [OF bl] by simp
  have cell: "concat (map ?sl [0..<U]) ! ((u * W + x) * 9 + k) = (h_stack ! u) ! ((y * W + x) * 9 + k)"
    if u: "u < U" and x: "x < W" and k: "k < 9" for u x k
  proof -
    have i: "x * 9 + k < ?rb" using x k by simp
    have e1: "(u * W + x) * 9 + k = u * ?rb + (x * 9 + k)" by (simp add: algebra_simps)
    have e2: "(y * W + x) * 9 + k = y * ?rb + (x * 9 + k)" by (simp add: algebra_simps)
    have "concat (map ?sl [0..<U]) ! (u * ?rb + (x * 9 + k)) = ?sl u ! (x * 9 + k)"
      using bl u i by (rule nth_concat_blocks)
    also have "\<dots> = (h_stack ! u) ! (y * ?rb + (x * 9 + k))"
      using i fr'' u by (intro nth_py_slice) simp_all
    finally show ?thesis unfolding e1 e2 .
  qed
  show ?thesis
    using b p len cell by (intro exI [of _ blob] conjI exI [of _ "concat (map ?sl [0..<U])"]) simp_all
qed

text \<open>
  C6. For a stack of \<open>U\<close> horizontal frames and a stack of \<open>V\<close> vertical frames, every
  frame a payload of \<open>H * W\<close> pixels of 9 bytes (three packed 24-bit channels), with all
  four dimensions fitting the 32-bit header fields, and for requested rows below \<open>H\<close> and
  columns below \<open>W\<close>: \<open>build_epis_imgb_in_memory\<close> (No\_Libraries) returns, for every
  requested row \<open>y\<close>, a container of width \<open>W\<close>, height \<open>U\<close>, three channels and the packed
  encoding, whose payload holds at angular row \<open>u\<close>, column \<open>x\<close> the nine bytes of pixel
  \<open>(y, x)\<close> of frame \<open>u\<close>.
\<close>

theorem epi_h_gathers_rows:
  assumes dims: "W < 2 ^ 32" "H < 2 ^ 32" "U < 2 ^ 32" "V < 2 ^ 32"
    and hs: "length h_stack = U" "\<forall>f\<in>set h_stack. length f = H * W * 9"
    and vs: "length v_stack = V" "\<forall>f\<in>set v_stack. length f = H * W * 9"
    and ys: "\<forall>y\<in>set y_rows. y < H" and xs: "\<forall>x\<in>set x_cols. x < W"
  shows "\<exists>epi_h epi_v.
      build_epis_imgb_in_memory h_stack v_stack (H, W, U, V) y_rows x_cols = Inr (epi_h, epi_v)
      \<and> length epi_h = length y_rows
      \<and> (\<forall>i<length y_rows. \<exists>payload.
            imgb_parse (epi_h ! i) = Inr (W, U, 3, 4, payload)
            \<and> length payload = U * W * 9
            \<and> (\<forall>u<U. \<forall>x<W. \<forall>k<9.
                  payload ! ((u * W + x) * 9 + k)
                    = (h_stack ! u) ! (((y_rows ! i) * W + x) * 9 + k)))"
proof -
  let ?P = "\<lambda>y blob. \<exists>payload. imgb_parse blob = Inr (W, U, 3, 4, payload)
            \<and> length payload = U * W * 9
            \<and> (\<forall>u<U. \<forall>x<W. \<forall>k<9.
                  payload ! ((u * W + x) * 9 + k) = (h_stack ! u) ! ((y * W + x) * 9 + k))"
  have hfr: "\<forall>u<U. H * W * 9 \<le> length (h_stack ! u)" using hs by simp
  have vfr: "\<forall>v<V. H * W * 9 \<le> length (v_stack ! v)" using vs by simp
  have "\<forall>y\<in>set y_rows. \<exists>b. epi_h_row h_stack W U y = Inr b \<and> ?P y b"
    using epi_h_row_cells [OF _ dims(1) dims(3) hfr] hs(1) ys by simp
  from efold_collect [where f = "epi_h_row h_stack W U" and P = ?P and start = "[]", OF this]
  obtain epi_h where eh: "efold (\<lambda>y acc. ebind (epi_h_row h_stack W U y) (\<lambda>b. Inr (acc @ [b])))
        y_rows [] = Inr epi_h"
    and lh: "length epi_h = length y_rows" and ph: "\<forall>i<length y_rows. ?P (y_rows ! i) (epi_h ! i)"
    by auto
  have "\<forall>x\<in>set x_cols. \<exists>b. epi_v_col v_stack H W V x = Inr b \<and> True"
    using epi_v_col_ok [OF _ dims(2) dims(4) _ vfr] vs(1) xs by simp
  from efold_collect [where f = "epi_v_col v_stack H W V" and P = "\<lambda>_ _. True" and start = "[]",
      OF this]
  obtain epi_v where ev: "efold (\<lambda>x acc. ebind (epi_v_col v_stack H W V x) (\<lambda>b. Inr (acc @ [b])))
        x_cols [] = Inr epi_v"
    by auto
  have "build_epis_imgb_in_memory h_stack v_stack (H, W, U, V) y_rows x_cols = Inr (epi_h, epi_v)"
    unfolding build_epis_imgb_in_memory_def prod.case eh ev by (simp add: ebind_def)
  with lh ph show ?thesis by (intro exI [of _ epi_h] exI [of _ epi_v] conjI)
qed

theorem epi_h_gathers_rows_witness:
  "\<exists>epi_h epi_v.
      build_epis_imgb_in_memory
        [[1, 2, 3, 4, 5, 6, 7, 8, 9, 10, 11, 12, 13, 14, 15, 16, 17, 18],
         [21, 22, 23, 24, 25, 26, 27, 28, 29, 30, 31, 32, 33, 34, 35, 36, 37, 38]]
        [[1, 2, 3, 4, 5, 6, 7, 8, 9, 10, 11, 12, 13, 14, 15, 16, 17, 18]]
        (2, 1, 2, 1) [0, 1] [0] = Inr (epi_h, epi_v)
      \<and> length epi_h = 2
      \<and> (\<exists>payload. imgb_parse (epi_h ! 1) = Inr (1, 2, 3, 4, payload)
            \<and> length payload = 18 \<and> payload ! 9 = 30)"
proof -
  let ?f0 = "[1, 2, 3, 4, 5, 6, 7, 8, 9, 10, 11, 12, 13, 14, 15, 16, 17, 18] :: bytes"
  let ?f1 = "[21, 22, 23, 24, 25, 26, 27, 28, 29, 30, 31, 32, 33, 34, 35, 36, 37, 38] :: bytes"
  have d: "(1::nat) < 2 ^ 32" "(2::nat) < 2 ^ 32" by simp_all
  have hs: "length [?f0, ?f1] = 2" "\<forall>f\<in>set [?f0, ?f1]. length f = 2 * 1 * 9" by simp_all
  have vs: "length [?f0] = 1" "\<forall>f\<in>set [?f0]. length f = 2 * 1 * 9" by simp_all
  have ys: "\<forall>y\<in>set [0, 1 :: nat]. y < 2" and xs: "\<forall>x\<in>set [0 :: nat]. x < 1" by simp_all
  from epi_h_gathers_rows [OF d(1) d(2) d(2) d(1) hs vs ys xs]
  obtain epi_h epi_v where
    r: "build_epis_imgb_in_memory [?f0, ?f1] [?f0] (2, 1, 2, 1) [0, 1] [0] = Inr (epi_h, epi_v)"
    and l: "length epi_h = length [0, 1 :: nat]"
    and c: "\<forall>i<length [0, 1 :: nat]. \<exists>payload.
            imgb_parse (epi_h ! i) = Inr (1, 2, 3, 4, payload)
            \<and> length payload = 2 * 1 * 9
            \<and> (\<forall>u<2. \<forall>x<1. \<forall>k<9.
                  payload ! ((u * 1 + x) * 9 + k)
                    = ([?f0, ?f1] ! u) ! ((([0, 1] ! i) * 1 + x) * 9 + k))"
    by (elim exE conjE)
  have i1: "(1::nat) < length [0, 1 :: nat]" by simp
  from c [rule_format, OF i1]
  obtain payload where p: "imgb_parse (epi_h ! 1) = Inr (1, 2, 3, 4, payload)"
    and lp: "length payload = 2 * 1 * 9"
    and cells: "\<forall>u<2. \<forall>x<1. \<forall>k<9.
                  payload ! ((u * 1 + x) * 9 + k)
                    = ([?f0, ?f1] ! u) ! ((([0, 1] ! 1) * 1 + x) * 9 + k)"
    by (elim exE conjE)
  have "payload ! ((1 * 1 + 0) * 9 + 0) = ([?f0, ?f1] ! 1) ! ((([0, 1] ! 1) * 1 + 0) * 9 + 0)"
    by (rule cells [rule_format]) simp_all
  then have "payload ! 9 = 30" by simp
  with r l p lp show ?thesis by simp
qed

subsection \<open>The confidence estimator\<close>

text \<open>
  A loop that stores one sample per iteration at consecutive sample positions, starting at
  sample \<open>base\<close>: it does not raise, keeps the samples before \<open>base\<close>, and every sample it
  stored has the property \<open>V\<close> that each step guarantees.
\<close>

lemma sample_loop:
  assumes step: "\<And>x s. x < N \<Longrightarrow> length (get s) = L \<Longrightarrow> R s \<Longrightarrow>
      \<exists>v s'. f x s = Inr s' \<and> get s' = put24 (get s) (3 * (base + x)) v
        \<and> 0 \<le> v \<and> v < 16777216 \<and> V x v \<and> R s'"
    and fits: "3 * (base + N) \<le> L" and len: "length (get s0) = L" and R0: "R s0"
  shows "\<exists>s. efold f [0..<N] s0 = Inr s \<and> length (get s) = L \<and> R s
      \<and> (\<forall>j<base. u24_at (get s) (3 * j) = u24_at (get s0) (3 * j))
      \<and> (\<forall>x<N. V x (u24_at (get s) (3 * (base + x))))"
proof -
  let ?I = "\<lambda>k s. length (get s) = L \<and> R s
      \<and> (\<forall>j<base. u24_at (get s) (3 * j) = u24_at (get s0) (3 * j))
      \<and> (\<forall>x<k. V x (u24_at (get s) (3 * (base + x))))"
  have "\<exists>s. efold f [0..<N] s0 = Inr s \<and> ?I N s"
  proof (rule efold_upt_inv [where I = ?I])
    show "?I 0 s0" using len R0 by simp
  next
    fix k s
    assume k: "k < N" and I: "?I k s"
    have l: "length (get s) = L" and R: "R s"
      and keep: "\<forall>j<base. u24_at (get s) (3 * j) = u24_at (get s0) (3 * j)"
      and prev: "\<forall>x<k. V x (u24_at (get s) (3 * (base + x)))"
      using I by auto
    from step [OF k l R] obtain v s' where
      f: "f k s = Inr s'" and g: "get s' = put24 (get s) (3 * (base + k)) v"
      and v: "0 \<le> v" "v < 16777216" "V k v" and R': "R s'" by blast
    have b: "3 * (base + k) + 2 < length (get s)" using k fits l by simp
    have same: "u24_at (get s') (3 * (base + k)) = v"
      unfolding g using b v(1,2) by (rule u24_at_put24_same)
    have other: "u24_at (get s') (3 * j) = u24_at (get s) (3 * j)"
      if "j < base + k" for j
      unfolding g using that by (intro u24_at_put24_other) simp
    have new: "V x (u24_at (get s') (3 * (base + x)))" if "x < Suc k" for x
    proof (cases "x = k")
      case True
      then show ?thesis using same v(3) by simp
    next
      case False
      with that have "x < k" by simp
      then show ?thesis using other [of "base + x"] prev by simp
    qed
    have keep': "u24_at (get s') (3 * j) = u24_at (get s0) (3 * j)" if "j < base" for j
      using other [of j] keep that by simp
    have l': "length (get s') = L" unfolding g using l by simp
    have "?I (Suc k) s'"
      using l' R' keep' new by simp
    then show "\<exists>s'. f k s = Inr s' \<and> ?I (Suc k) s'"
      using f by simp
  qed
  then show ?thesis by auto
qed

lemma BIAS_mod: "BIAS_INT mod 16777216 = BIAS_INT" "0 \<le> BIAS_INT" "BIAS_INT < 16777216"
  by (simp_all add: BIAS_INT_def)

lemma bias_from_range: "0 \<le> bias_from_q12_12 q \<and> bias_from_q12_12 q < 16777216"
  by (simp add: bias_from_q12_12_def BIAS_INT_def Let_def)

lemma write_sample:
  assumes "3 * n + 2 < length out" "0 \<le> v" "v < 16777216" "off = 3 * n"
  shows "u24_write out (int off) v = Inr (put24 out (3 * n) v)"
proof -
  have "v mod 16777216 = v" using assms(2,3) by simp
  then show ?thesis
    using u24_write_ok [of "3 * n" out v] assms(1,4) by simp
qed

lemma border_row_ok:
  assumes fits: "3 * (b + N) \<le> length out0"
  shows "\<exists>out. border_row (b * 3) N out0 = Inr out \<and> length out = length out0
      \<and> (\<forall>j<b. u24_at out (3 * j) = u24_at out0 (3 * j))
      \<and> (\<forall>x<N. u24_at out (3 * (b + x)) = BIAS_INT)"
proof -
  have "\<exists>s. efold (\<lambda>x out_diff. u24_write out_diff (int (b * 3 + x * 3)) BIAS_INT) [0..<N] out0
        = Inr s \<and> length (id s) = length out0 \<and> True
      \<and> (\<forall>j<b. u24_at (id s) (3 * j) = u24_at (id out0) (3 * j))
      \<and> (\<forall>x<N. (\<lambda>x v. v = BIAS_INT) x (u24_at (id s) (3 * (b + x))))"
  proof (rule sample_loop [where R = "\<lambda>_. True" and get = id])
    fix x and s :: bytes
    assume x: "x < N" and l: "length (id s) = length out0"
    have "3 * (b + x) + 2 < length s" using x fits l by simp
    then have "u24_write s (int (b * 3 + x * 3)) BIAS_INT = Inr (put24 s (3 * (b + x)) BIAS_INT)"
      using BIAS_mod(2,3) by (rule write_sample) simp
    then show "\<exists>v s'. u24_write s (int (b * 3 + x * 3)) BIAS_INT = Inr s'
        \<and> id s' = put24 (id s) (3 * (b + x)) v \<and> 0 \<le> v \<and> v < 16777216 \<and> v = BIAS_INT \<and> True"
      using BIAS_mod(2,3) by simp
  qed (use fits in simp_all)
  then show ?thesis unfolding border_row_def by simp
qed

lemma fill_bias_ok:
  assumes "length out0 = n * 3"
  shows "\<exists>out. fill_bias n out0 = Inr out \<and> length out = n * 3
      \<and> (\<forall>j<n. u24_at out (3 * j) = BIAS_INT)"
proof -
  have "3 * (0 + n) \<le> length out0" using assms by simp
  from border_row_ok [OF this]
  obtain out where "border_row (0 * 3) n out0 = Inr out" "length out = length out0"
      "\<forall>x<n. u24_at out (3 * (0 + x)) = BIAS_INT" by blast
  then show ?thesis
    using assms by (simp add: border_row_def fill_bias_def)
qed

lemma block_index_lt: "u < n \<Longrightarrow> i < m \<Longrightarrow> u * m + i < n * (m :: nat)"
proof -
  assume u: "u < n" and i: "i < m"
  have "u * m + i < Suc u * m" using i by simp
  also have "\<dots> \<le> n * m" using u by (intro mult_le_mono1) simp
  finally show ?thesis .
qed

lemma read_sample:
  assumes ch: "0 \<le> ch" "ch \<le> 2" and r: "r < A" and x: "x < N" and len: "A * N * 9 \<le> length pay"
  shows "\<exists>v. u24_read pay (int ((r * N + x) * 9) + ch * 3) = Inr v"
proof -
  have "r * N + x < A * N" using r x by (rule block_index_lt)
  then have "(r * N + x) * 9 + 9 \<le> A * N * 9" by simp
  then have b: "(r * N + x) * 9 + nat (ch * 3) + 2 < length pay" using ch len by simp
  have "int ((r * N + x) * 9) + ch * 3 = int ((r * N + x) * 9 + nat (ch * 3))"
    using ch by simp
  then show ?thesis
    using u24_read_ok [OF b] by simp
qed

lemma interior_row_ok:
  assumes ch: "0 \<le> ch" "ch \<le> 2" and a: "0 < a" "a + 1 < A" and len: "A * N * 9 \<le> length pay"
    and fits: "3 * (a * N + N) \<le> length out0"
  shows "\<exists>out sum_abs. efold (interior_step pay ch N a ((a * N) * 3)) [0..<N] (out0, s0)
        = Inr (out, sum_abs) \<and> length out = length out0
      \<and> (\<forall>j<a * N. u24_at out (3 * j) = u24_at out0 (3 * j))"
proof -
  have "\<exists>s. efold (interior_step pay ch N a ((a * N) * 3)) [0..<N] (out0, s0) = Inr s
      \<and> length (fst s) = length out0 \<and> True
      \<and> (\<forall>j<a * N. u24_at (fst s) (3 * j) = u24_at (fst (out0, s0)) (3 * j))
      \<and> (\<forall>x<N. (\<lambda>_ _. True) x (u24_at (fst s) (3 * (a * N + x))))"
  proof (rule sample_loop [where R = "\<lambda>_. True" and get = fst])
    fix x and s :: "bytes \<times> int list"
    assume x: "x < N" and l: "length (fst s) = length out0"
    obtain out sa where s: "s = (out, sa)" by (cases s)
    have am: "a - 1 < A" using a by simp
    from read_sample [OF ch am x len] obtain rm where
      rm: "u24_read pay (int (((a - 1) * N + x) * 9) + ch * 3) = Inr rm" by blast
    from read_sample [OF ch a(2) x len] obtain rp where
      rp: "u24_read pay (int (((a + 1) * N + x) * 9) + ch * 3) = Inr rp" by blast
    let ?d = "round_div2 (rp - BIAS_INT - (rm - BIAS_INT))"
    have b: "3 * (a * N + x) + 2 < length out" using x fits l s by simp
    have w: "u24_write out (int (a * N * 3 + x * 3)) (bias_from_q12_12 ?d)
        = Inr (put24 out (3 * (a * N + x)) (bias_from_q12_12 ?d))"
      using b bias_from_range [of ?d] by (intro write_sample) simp_all
    have "interior_step pay ch N a ((a * N) * 3) x s
        = Inr (put24 out (3 * (a * N + x)) (bias_from_q12_12 ?d), sa[x := sa ! x + abs_i32 ?d])"
      unfolding interior_step_def s Let_def prod.case rm rp
      by (simp only: ebind_def sum.case w)
    then show "\<exists>v s'. interior_step pay ch N a ((a * N) * 3) x s = Inr s'
        \<and> fst s' = put24 (fst s) (3 * (a * N + x)) v \<and> 0 \<le> v \<and> v < 16777216 \<and> True \<and> True"
      using bias_from_range [of ?d] unfolding s
      by (intro exI [of _ "bias_from_q12_12 ?d"]
          exI [of _ "(put24 out (3 * (a * N + x)) (bias_from_q12_12 ?d),
                     sa[x := sa ! x + abs_i32 ?d])"]) simp
  qed (use fits in simp_all)
  then show ?thesis by auto
qed

lemma epi_diffs_ok:
  assumes ch: "0 \<le> ch" "ch \<le> 2" and len: "A * N * 9 \<le> length pay"
  shows "\<exists>out sum_abs. epi_diffs pay ch A N = Inr (out, sum_abs) \<and> length out = A * N * 3
      \<and> (\<forall>a<A. a = 0 \<or> a = A - 1 \<longrightarrow> (\<forall>x<N. u24_at out (3 * (a * N + x)) = BIAS_INT))"
proof -
  let ?f = "\<lambda>a (out_diff, sum_abs).
              let base_out = (a * N) * 3
              in if a = 0 \<or> a = A - 1
                 then ebind (border_row base_out N out_diff) (\<lambda>out_diff. Inr (out_diff, sum_abs))
                 else efold (interior_step pay ch N a base_out) [0..<N] (out_diff, sum_abs)"
  let ?I = "\<lambda>k (s :: bytes \<times> int list). length (fst s) = A * N * 3
      \<and> (\<forall>a<k. a = 0 \<or> a = A - 1 \<longrightarrow> (\<forall>x<N. u24_at (fst s) (3 * (a * N + x)) = BIAS_INT))"
  have "\<exists>s. efold ?f [0..<A] (replicate (A * N * 3) 0, replicate N 0) = Inr s \<and> ?I A s"
  proof (rule efold_upt_inv [where I = ?I])
    show "?I 0 (replicate (A * N * 3) 0, replicate N 0)" by simp
  next
    fix k s
    assume k: "k < A" and I: "?I k s"
    obtain out sa where s: "s = (out, sa)" by (cases s)
    have l: "length out = A * N * 3"
      and prev: "\<forall>a<k. a = 0 \<or> a = A - 1 \<longrightarrow> (\<forall>x<N. u24_at out (3 * (a * N + x)) = BIAS_INT)"
      using I s by auto
    have "Suc k * N \<le> A * N" using k by (intro mult_le_mono1) simp
    then have fits: "3 * (k * N + N) \<le> length out" using l by simp
    have before: "a * N + x < k * N" if "a < k" "x < N" for a x
      using that by (rule block_index_lt)
    show "\<exists>s'. ?f k s = Inr s' \<and> ?I (Suc k) s'"
    proof (cases "k = 0 \<or> k = A - 1")
      case True
      from border_row_ok [OF fits]
      obtain out' where b: "border_row (k * N * 3) N out = Inr out'"
        and l': "length out' = length out"
        and keep: "\<forall>j<k * N. u24_at out' (3 * j) = u24_at out (3 * j)"
        and new: "\<forall>x<N. u24_at out' (3 * (k * N + x)) = BIAS_INT" by blast
      have f: "?f k s = Inr (out', sa)"
        unfolding s using True by (simp add: b ebind_def)
      have "u24_at out' (3 * (a * N + x)) = BIAS_INT"
        if "a < Suc k" "a = 0 \<or> a = A - 1" "x < N" for a x
      proof (cases "a = k")
        case True
        then show ?thesis using new that(3) by simp
      next
        case False
        with that(1) have ak: "a < k" by simp
        have e: "u24_at out' (3 * (a * N + x)) = u24_at out (3 * (a * N + x))"
          by (rule keep [rule_format, OF before [OF ak that(3)]])
        show ?thesis unfolding e by (rule prev [rule_format, OF ak that(2) that(3)])
      qed
      then have "?I (Suc k) (out', sa)" using l l' by simp
      then show ?thesis using f by simp
    next
      case False
      then have a: "0 < k" "k + 1 < A" using k by auto
      from interior_row_ok [OF ch a len fits, of sa]
      obtain out' sa' where
        b: "efold (interior_step pay ch N k (k * N * 3)) [0..<N] (out, sa) = Inr (out', sa')"
        and l': "length out' = length out"
        and keep: "\<forall>j<k * N. u24_at out' (3 * j) = u24_at out (3 * j)" by blast
      have f: "?f k s = Inr (out', sa')"
        unfolding s using False by (simp add: b)
      have "u24_at out' (3 * (a * N + x)) = BIAS_INT"
        if "a < Suc k" "a = 0 \<or> a = A - 1" "x < N" for a x
      proof -
        from that(1,2) False have ak: "a < k" by (cases "a = k") auto
        have e: "u24_at out' (3 * (a * N + x)) = u24_at out (3 * (a * N + x))"
          by (rule keep [rule_format, OF before [OF ak that(3)]])
        show ?thesis unfolding e by (rule prev [rule_format, OF ak that(2) that(3)])
      qed
      then have "?I (Suc k) (out', sa')" using l l' by simp
      then show ?thesis using f by simp
    qed
  qed
  then show ?thesis unfolding epi_diffs_def by auto
qed

lemma mean_abs_ok:
  assumes "denom \<noteq> 0"
  shows "\<exists>C'. mean_abs sum_abs denom N pos C_q = Inr C' \<and> length C' = length C_q"
proof -
  let ?f = "\<lambda>x C_q. ebind (floordiv (sum_abs ! x + int denom div 2) (int denom))
                       (\<lambda>m. Inr (C_q[pos x := m]))"
  have "\<exists>s. efold ?f [0..<N] C_q = Inr s \<and> length s = length C_q"
    by (rule efold_upt_inv [where I = "\<lambda>_ s. length s = length C_q"])
      (use assms in \<open>simp_all add: floordiv_def ebind_def\<close>)
  then show ?thesis unfolding mean_abs_def Let_def .
qed

lemma u32_le_bound: "u32_le buf off < 2 ^ 32"
proof -
  have "from_bytes_le bs < 256 ^ length bs" for bs
  proof (induction bs)
    case Nil
    show ?case by simp
  next
    case (Cons b bs)
    have "unat b < 2 ^ LENGTH(8)" by (rule unsigned_less)
    then have "unat b < 256" by simp
    then have "unat b + 256 * from_bytes_le bs < 256 + 256 * from_bytes_le bs" by simp
    also have "\<dots> = 256 * (from_bytes_le bs + 1)" by simp
    also have "\<dots> \<le> 256 * 256 ^ length bs" using Cons by (intro mult_le_mono2) simp
    finally show ?case by simp
  qed
  then have "u32_le buf off < 256 ^ length (py_slice buf off (off + 4))"
    unfolding u32_le_def .
  also have "\<dots> \<le> (256 :: nat) ^ 4"
    by (intro power_increasing) (simp_all add: py_slice_def)
  finally show ?thesis by simp
qed

lemma imgb_parse_dims:
  assumes "imgb_parse buf = Inr (W, H, C, d, p)"
  shows "W < 2 ^ 32" "H < 2 ^ 32"
proof -
  have "W = u32_le buf 4 \<and> H = u32_le buf 8"
    using assms
    by (auto simp: imgb_parse_def ebind_def Let_def split: if_splits sum.splits)
  then show "W < 2 ^ 32" "H < 2 ^ 32" using u32_le_bound by simp_all
qed

lemma imgb_make_payload:
  assumes "W < 2 ^ 32" "H < 2 ^ 32" "bytes_per_sample d = Inr bps" "length payload = W * H * C * bps"
  shows "\<exists>blob. imgb_make W H C d payload = Inr blob \<and> imbg_parse_payload blob = payload"
  using imgb_make_ok [OF assms]
  by (simp add: imbg_parse_payload_def MAGIC_def length_to_bytes_le_aux)

lemma bps4: "bytes_per_sample 4 = Inr 3"
  by (simp add: bytes_per_sample_def)

lemma degenerate_loop_ok:
  assumes N32: "N < 2 ^ 32" and A32: "A < 2 ^ 32"
  shows "\<exists>dL. efold (\<lambda>i (dL, C).
              ebind (fill_bias (A * N) (replicate (A * N * 3) 0)) (\<lambda>out_diff.
                ebind (imgb_make N A 1 4 out_diff) (\<lambda>blob. Inr (dL @ [blob], C))))
            [0..<n] ([], C0) = Inr (dL, C0 :: int list)
      \<and> length dL = n
      \<and> (\<forall>i<n. \<forall>j<A * N. u24_at (imbg_parse_payload (dL ! i)) (3 * j) = BIAS_INT)"
proof -
  let ?f = "\<lambda>(i::nat) (dL, C :: int list).
              ebind (fill_bias (A * N) (replicate (A * N * 3) 0)) (\<lambda>out_diff.
                ebind (imgb_make N A 1 4 out_diff) (\<lambda>blob. Inr (dL @ [blob], C)))"
  let ?I = "\<lambda>k (s :: bytes list \<times> int list). snd s = C0 \<and> length (fst s) = k
      \<and> (\<forall>i<k. \<forall>j<A * N. u24_at (imbg_parse_payload (fst s ! i)) (3 * j) = BIAS_INT)"
  from fill_bias_ok [of "replicate (A * N * 3) 0" "A * N"]
  obtain out where fb: "fill_bias (A * N) (replicate (A * N * 3) 0) = Inr out"
    and lo: "length out = A * N * 3"
    and cells: "\<forall>j<A * N. u24_at out (3 * j) = BIAS_INT" by auto
  have "length out = N * A * 1 * 3" using lo by (simp add: algebra_simps)
  from imgb_make_payload [OF N32 A32 bps4 this]
  obtain blob where mk: "imgb_make N A 1 4 out = Inr blob"
    and pl: "imbg_parse_payload blob = out" by blast
  have "\<exists>s. efold ?f [0..<n] ([], C0) = Inr s \<and> ?I n s"
  proof (rule efold_upt_inv [where I = ?I])
    show "?I 0 ([], C0)" by simp
  next
    fix k s
    assume k: "k < n" and I: "?I k s"
    obtain dL where s: "s = (dL, C0)" using I by (cases s) auto
    have ld: "length dL = k"
      and prev: "\<forall>i<k. \<forall>j<A * N. u24_at (imbg_parse_payload (dL ! i)) (3 * j) = BIAS_INT"
      using I s by auto
    have f: "?f k s = Inr (dL @ [blob], C0)"
      unfolding s by (simp only: prod.case fb mk ebind_def sum.case)
    have "u24_at (imbg_parse_payload ((dL @ [blob]) ! i)) (3 * j) = BIAS_INT"
      if "i < Suc k" "j < A * N" for i j
    proof (cases "i = k")
      case True
      then show ?thesis using ld pl cells that(2) by (simp add: nth_append)
    next
      case False
      with that(1) have "i < k" by simp
      then show ?thesis using ld prev that(2) by (simp add: nth_append)
    qed
    then have "?I (Suc k) (dL @ [blob], C0)" using ld by simp
    then show "\<exists>s'. ?f k s = Inr s' \<and> ?I (Suc k) s'" using f by simp
  qed
  then show ?thesis by auto
qed

lemma axis_loop_ok:
  assumes A3: "3 \<le> A" and ch: "0 \<le> ch" "ch \<le> 2" and N32: "N < 2 ^ 32" and A32: "A < 2 ^ 32"
    and pays: "\<forall>i<n. A * N * 9 \<le> length (imbg_parse_payload (epi ! i))"
  shows "\<exists>dL C. efold (\<lambda>i (dL, C).
              ebind (epi_diffs (imbg_parse_payload (epi ! i)) ch A N) (\<lambda>(out_diff, sum_abs).
                ebind (mean_abs sum_abs (A - 2) N (pos i) C) (\<lambda>C.
                  ebind (imgb_make N A 1 4 out_diff) (\<lambda>blob. Inr (dL @ [blob], C)))))
            [0..<n] ([], C0) = Inr (dL, C)
      \<and> length dL = n
      \<and> (\<forall>i<n. \<forall>a<A. a = 0 \<or> a = A - 1 \<longrightarrow>
            (\<forall>x<N. u24_at (imbg_parse_payload (dL ! i)) (3 * (a * N + x)) = BIAS_INT))"
proof -
  let ?f = "\<lambda>i (dL, C).
              ebind (epi_diffs (imbg_parse_payload (epi ! i)) ch A N) (\<lambda>(out_diff, sum_abs).
                ebind (mean_abs sum_abs (A - 2) N (pos i) C) (\<lambda>C.
                  ebind (imgb_make N A 1 4 out_diff) (\<lambda>blob. Inr (dL @ [blob], C))))"
  let ?P = "\<lambda>blob. \<forall>a<A. a = 0 \<or> a = A - 1 \<longrightarrow>
            (\<forall>x<N. u24_at (imbg_parse_payload blob) (3 * (a * N + x)) = BIAS_INT)"
  let ?I = "\<lambda>k (s :: bytes list \<times> int list). length (fst s) = k \<and> (\<forall>i<k. ?P (fst s ! i))"
  have "\<exists>s. efold ?f [0..<n] ([], C0) = Inr s \<and> ?I n s"
  proof (rule efold_upt_inv [where I = ?I])
    show "?I 0 ([], C0)" by simp
  next
    fix k s
    assume k: "k < n" and I: "?I k s"
    obtain dL C where s: "s = (dL, C)" by (cases s)
    have ld: "length dL = k" and prev: "\<forall>i<k. ?P (dL ! i)" using I s by auto
    have len: "A * N * 9 \<le> length (imbg_parse_payload (epi ! k))" using pays k by simp
    from epi_diffs_ok [OF ch len]
    obtain out sa where d: "epi_diffs (imbg_parse_payload (epi ! k)) ch A N = Inr (out, sa)"
      and lo: "length out = A * N * 3"
      and b: "\<forall>a<A. a = 0 \<or> a = A - 1 \<longrightarrow> (\<forall>x<N. u24_at out (3 * (a * N + x)) = BIAS_INT)"
      by blast
    have "A - 2 \<noteq> 0" using A3 by simp
    from mean_abs_ok [OF this, of sa N "pos k" C]
    obtain C' where m: "mean_abs sa (A - 2) N (pos k) C = Inr C'" by blast
    have "length out = N * A * 1 * 3" using lo by (simp add: algebra_simps)
    from imgb_make_payload [OF N32 A32 bps4 this]
    obtain blob where mk: "imgb_make N A 1 4 out = Inr blob"
      and pl: "imbg_parse_payload blob = out" by blast
    have f: "?f k s = Inr (dL @ [blob], C')"
      unfolding s by (simp only: prod.case d m mk ebind_def sum.case)
    have Pb: "?P blob" unfolding pl by (rule b)
    have "?P ((dL @ [blob]) ! i)" if "i < Suc k" for i
    proof (cases "i = k")
      case True
      then show ?thesis using ld Pb by (simp add: nth_append)
    next
      case False
      with that have ik: "i < k" by simp
      then have "(dL @ [blob]) ! i = dL ! i" using ld by (simp add: nth_append)
      then show ?thesis using prev [rule_format, OF ik] by simp
    qed
    then have "?I (Suc k) (dL @ [blob], C')" using ld by simp
    then show "\<exists>s'. ?f k s = Inr s' \<and> ?I (Suc k) s'" using f by simp
  qed
  then show ?thesis by auto
qed

lemma pack_conf_ok:
  assumes W32: "W < 2 ^ 32" and H32: "H < 2 ^ 32"
  shows "\<exists>blob. pack_conf C_q W H = Inr blob
      \<and> (\<forall>i<H * W. u24_at (imbg_parse_payload blob) (3 * i) = bias_from_q12_12 (C_q ! i))"
proof -
  let ?f = "\<lambda>i payload. u24_write payload (int (i * 3)) (bias_from_q12_12 (C_q ! i))"
  have "\<exists>s. efold ?f [0..<H * W] (replicate (H * W * 3) 0) = Inr s
      \<and> length (id s) = H * W * 3 \<and> True
      \<and> (\<forall>j<0. u24_at (id s) (3 * j) = u24_at (id (replicate (H * W * 3) 0)) (3 * j))
      \<and> (\<forall>x<H * W. (\<lambda>i v. v = bias_from_q12_12 (C_q ! i)) x (u24_at (id s) (3 * (0 + x))))"
  proof (rule sample_loop [where R = "\<lambda>_. True" and get = id])
    fix x and s :: bytes
    assume x: "x < H * W" and l: "length (id s) = H * W * 3"
    have "3 * x + 2 < length s" using x l by simp
    then have "u24_write s (int (x * 3)) (bias_from_q12_12 (C_q ! x))
        = Inr (put24 s (3 * x) (bias_from_q12_12 (C_q ! x)))"
      using bias_from_range [of "C_q ! x"] by (intro write_sample) simp_all
    then show "\<exists>v s'. ?f x s = Inr s' \<and> id s' = put24 (id s) (3 * (0 + x)) v
        \<and> 0 \<le> v \<and> v < 16777216 \<and> v = bias_from_q12_12 (C_q ! x) \<and> True"
      using bias_from_range [of "C_q ! x"] by simp
  qed simp_all
  then obtain payload where
    loop: "efold ?f [0..<H * W] (replicate (H * W * 3) 0) = Inr payload"
    and lp: "length payload = H * W * 3"
    and cells: "\<forall>x<H * W. u24_at payload (3 * x) = bias_from_q12_12 (C_q ! x)" by auto
  have "length payload = W * H * 1 * 3" using lp by (simp add: algebra_simps)
  from imgb_make_payload [OF W32 H32 bps4 this]
  obtain blob where mk: "imgb_make W H 1 4 payload = Inr blob"
    and pl: "imbg_parse_payload blob = payload" by blast
  have "pack_conf C_q W H = Inr blob"
    unfolding pack_conf_def loop by (simp only: ebind_def sum.case mk)
  then show ?thesis using cells pl by simp
qed

lemma compute_unfold:
  assumes ne: "epi_h \<noteq> []" "epi_v \<noteq> []"
    and ph: "imgb_parse (epi_h ! 0) = Inr (W, A, 3, 4, p0)"
    and pv: "imgb_parse (epi_v ! 0) = Inr (H, A, 3, 4, q0)"
    and lh: "length epi_h = H" and lv: "length epi_v = W"
  shows "compute_from_epis_with_diffs epi_h epi_v channel =
     ebind (diffs_h epi_h (case channel of None \<Rightarrow> 0 | Some c \<Rightarrow> c) A H W) (\<lambda>(dL_du_h, C_h_q).
       ebind (pack_conf C_h_q W H) (\<lambda>C_h_imgb.
         ebind (diffs_v epi_v (case channel of None \<Rightarrow> 0 | Some c \<Rightarrow> c) A H W) (\<lambda>(dL_dv_v, C_v_q).
           ebind (pack_conf C_v_q W H) (\<lambda>C_v_imgb.
             Inr (C_h_imgb, C_v_imgb, dL_du_h, dL_dv_v)))))"
proof -
  have n: "\<not> (H = 0 \<or> W = 0)" using ne lh lv by auto
  show ?thesis
    unfolding compute_from_epis_with_diffs_def Let_def
    by (simp only: n if_False ph pv ebind_def [of "Inr _"] sum.case prod.case lh lv
        simp_thms if_True)
qed

lemma diffs_h_degenerate:
  assumes "A < 3" "W < 2 ^ 32" "A < 2 ^ 32"
  shows "\<exists>dL. diffs_h epi ch A H W = Inr (dL, replicate (H * W) 0) \<and> length dL = H
      \<and> (\<forall>i<H. \<forall>j<A * W. u24_at (imbg_parse_payload (dL ! i)) (3 * j) = BIAS_INT)"
  using degenerate_loop_ok [OF assms(2,3), of H "replicate (H * W) 0"] assms(1)
  unfolding diffs_h_def by simp

lemma diffs_v_degenerate:
  assumes "A < 3" "H < 2 ^ 32" "A < 2 ^ 32"
  shows "\<exists>dL. diffs_v epi ch A H W = Inr (dL, replicate (H * W) 0) \<and> length dL = W
      \<and> (\<forall>i<W. \<forall>j<A * H. u24_at (imbg_parse_payload (dL ! i)) (3 * j) = BIAS_INT)"
  using degenerate_loop_ok [OF assms(2,3), of W "replicate (H * W) 0"] assms(1)
  unfolding diffs_v_def by simp

lemma diffs_h_regular:
  assumes A3: "3 \<le> A" and ch: "0 \<le> ch" "ch \<le> 2" and W32: "W < 2 ^ 32" and A32: "A < 2 ^ 32"
    and pays: "\<forall>i<H. A * W * 9 \<le> length (imbg_parse_payload (epi ! i))"
  shows "\<exists>dL C. diffs_h epi ch A H W = Inr (dL, C) \<and> length dL = H
      \<and> (\<forall>i<H. \<forall>a<A. a = 0 \<or> a = A - 1 \<longrightarrow>
            (\<forall>x<W. u24_at (imbg_parse_payload (dL ! i)) (3 * (a * W + x)) = BIAS_INT))"
proof -
  have n: "\<not> A < 3" using A3 by simp
  show ?thesis
    unfolding diffs_h_def Let_def if_not_P [OF n]
    by (rule axis_loop_ok [OF A3 ch W32 A32 pays, where pos = "\<lambda>y x. y * W + x"])
qed

lemma diffs_v_regular:
  assumes A3: "3 \<le> A" and ch: "0 \<le> ch" "ch \<le> 2" and H32: "H < 2 ^ 32" and A32: "A < 2 ^ 32"
    and pays: "\<forall>i<W. A * H * 9 \<le> length (imbg_parse_payload (epi ! i))"
  shows "\<exists>dL C. diffs_v epi ch A H W = Inr (dL, C) \<and> length dL = W
      \<and> (\<forall>i<W. \<forall>a<A. a = 0 \<or> a = A - 1 \<longrightarrow>
            (\<forall>x<H. u24_at (imbg_parse_payload (dL ! i)) (3 * (a * H + x)) = BIAS_INT))"
proof -
  have n: "\<not> A < 3" using A3 by simp
  show ?thesis
    unfolding diffs_v_def Let_def if_not_P [OF n]
    by (rule axis_loop_ok [OF A3 ch H32 A32 pays, where pos = "\<lambda>x y. y * W + x"])
qed

lemma sample_bias: "u24_at (imbg_parse_payload blob) (3 * j) = BIAS_INT \<Longrightarrow> sample_of (Inr blob) j = Some 0"
  by (simp add: sample_of_def)

lemma bias_from_zero: "bias_from_q12_12 0 = BIAS_INT"
  by (simp add: bias_from_q12_12_def BIAS_INT_def)

text \<open>
  C8. When the angular count \<open>A\<close> is 1 or 2 (the first horizontal EPI is a well-formed
  \<open>W\<close> by \<open>A\<close> container, the first vertical one a well-formed \<open>H\<close> by \<open>A\<close> container,
  and there are \<open>H\<close> horizontal and \<open>W\<close> vertical EPIs), \<open>compute_from_epis_with_diffs\<close>
  (No\_Libraries) returns without raising, so in particular without a division by zero;
  every sample of both confidence maps decodes to 0, and every sample of every
  angular-difference volume decodes to 0.
\<close>

theorem confidence_degenerate_zero:
  assumes ne: "epi_h \<noteq> []" "epi_v \<noteq> []"
    and ph: "imgb_parse (epi_h ! 0) = Inr (W, A, 3, 4, p0)"
    and pv: "imgb_parse (epi_v ! 0) = Inr (H, A, 3, 4, q0)"
    and lh: "length epi_h = H" and lv: "length epi_v = W"
    and A: "A = 1 \<or> A = 2"
  shows "\<exists>C_h C_v dL_du_h dL_dv_v.
      compute_from_epis_with_diffs epi_h epi_v channel = Inr (C_h, C_v, dL_du_h, dL_dv_v)
      \<and> (\<forall>j<H * W. sample_of (Inr C_h) j = Some 0 \<and> sample_of (Inr C_v) j = Some 0)
      \<and> length dL_du_h = H \<and> length dL_dv_v = W
      \<and> (\<forall>y<H. \<forall>j<A * W. sample_of (Inr (dL_du_h ! y)) j = Some 0)
      \<and> (\<forall>x<W. \<forall>j<A * H. sample_of (Inr (dL_dv_v ! x)) j = Some 0)"
proof -
  let ?ch = "case channel of None \<Rightarrow> 0 | Some c \<Rightarrow> c"
  have A3: "A < 3" using A by auto
  note d = imgb_parse_dims [OF ph] imgb_parse_dims [OF pv]
  from diffs_h_degenerate [OF A3 d(1) d(2), of epi_h ?ch H]
  obtain dLu where hu: "diffs_h epi_h ?ch A H W = Inr (dLu, replicate (H * W) 0)"
    and lu: "length dLu = H"
    and cu: "\<forall>i<H. \<forall>j<A * W. u24_at (imbg_parse_payload (dLu ! i)) (3 * j) = BIAS_INT"
    by blast
  from diffs_v_degenerate [OF A3 d(3) d(2), of epi_v ?ch W]
  obtain dLv where hv: "diffs_v epi_v ?ch A H W = Inr (dLv, replicate (H * W) 0)"
    and lv': "length dLv = W"
    and cv: "\<forall>i<W. \<forall>j<A * H. u24_at (imbg_parse_payload (dLv ! i)) (3 * j) = BIAS_INT"
    by blast
  from pack_conf_ok [OF d(1) d(3), of "replicate (H * W) 0"]
  obtain C where pc: "pack_conf (replicate (H * W) 0) W H = Inr C"
    and cc: "\<forall>i<H * W. u24_at (imbg_parse_payload C) (3 * i)
        = bias_from_q12_12 (replicate (H * W) 0 ! i)" by blast
  have res: "compute_from_epis_with_diffs epi_h epi_v channel = Inr (C, C, dLu, dLv)"
    unfolding compute_unfold [OF ne ph pv lh lv]
    by (simp only: hu hv pc ebind_def sum.case prod.case)
  have zero: "sample_of (Inr C) j = Some 0" if "j < H * W" for j
    using cc [rule_format, OF that] that by (intro sample_bias) (simp add: bias_from_zero)
  have su: "sample_of (Inr (dLu ! y)) j = Some 0" if "y < H" "j < A * W" for y j
    by (rule sample_bias) (rule cu [rule_format, OF that])
  have sv: "sample_of (Inr (dLv ! x)) j = Some 0" if "x < W" "j < A * H" for x j
    by (rule sample_bias) (rule cv [rule_format, OF that])
  show ?thesis
    using res zero lu lv' su sv
    by (intro exI [of _ C] exI [of _ dLu] exI [of _ dLv] conjI allI impI) assumption+
qed

text \<open>
  C7. For an angular count \<open>A \<ge> 3\<close>, EPIs whose payloads hold \<open>A\<close> rows of three-channel
  pixels, and a channel in \<open>{0, 1, 2}\<close> (or the default), \<open>compute_from_epis_with_diffs\<close>
  (No\_Libraries) returns, and in every angular-difference volume, horizontal and vertical,
  every sample at angular index 0 and at angular index \<open>A - 1\<close> holds the bias 8388608,
  that is, decodes to 0.
\<close>

theorem confidence_border_zero:
  assumes ne: "epi_h \<noteq> []" "epi_v \<noteq> []"
    and ph: "imgb_parse (epi_h ! 0) = Inr (W, A, 3, 4, p0)"
    and pv: "imgb_parse (epi_v ! 0) = Inr (H, A, 3, 4, q0)"
    and lh: "length epi_h = H" and lv: "length epi_v = W"
    and A3: "3 \<le> A"
    and pays_h: "\<forall>y<H. A * W * 9 \<le> length (imbg_parse_payload (epi_h ! y))"
    and pays_v: "\<forall>x<W. A * H * 9 \<le> length (imbg_parse_payload (epi_v ! x))"
    and chan: "channel = None \<or> channel = Some 0 \<or> channel = Some 1 \<or> channel = Some 2"
  shows "\<exists>C_h C_v dL_du_h dL_dv_v.
      compute_from_epis_with_diffs epi_h epi_v channel = Inr (C_h, C_v, dL_du_h, dL_dv_v)
      \<and> length dL_du_h = H \<and> length dL_dv_v = W
      \<and> (\<forall>y<H. \<forall>x<W. sample_of (Inr (dL_du_h ! y)) (0 * W + x) = Some 0
                      \<and> sample_of (Inr (dL_du_h ! y)) ((A - 1) * W + x) = Some 0)
      \<and> (\<forall>x<W. \<forall>y<H. sample_of (Inr (dL_dv_v ! x)) (0 * H + y) = Some 0
                      \<and> sample_of (Inr (dL_dv_v ! x)) ((A - 1) * H + y) = Some 0)"
proof -
  let ?ch = "case channel of None \<Rightarrow> 0 | Some c \<Rightarrow> c"
  have ch: "0 \<le> ?ch" "?ch \<le> 2" using chan by auto
  have A0: "0 < A" "A - 1 < A" using A3 by simp_all
  note d = imgb_parse_dims [OF ph] imgb_parse_dims [OF pv]
  from diffs_h_regular [OF A3 ch d(1) d(2) pays_h]
  obtain dLu Chq where hu: "diffs_h epi_h ?ch A H W = Inr (dLu, Chq)"
    and lu: "length dLu = H"
    and cu: "\<forall>i<H. \<forall>a<A. a = 0 \<or> a = A - 1 \<longrightarrow>
            (\<forall>x<W. u24_at (imbg_parse_payload (dLu ! i)) (3 * (a * W + x)) = BIAS_INT)"
    by blast
  from diffs_v_regular [OF A3 ch d(3) d(2) pays_v]
  obtain dLv Cvq where hv: "diffs_v epi_v ?ch A H W = Inr (dLv, Cvq)"
    and lv': "length dLv = W"
    and cv: "\<forall>i<W. \<forall>a<A. a = 0 \<or> a = A - 1 \<longrightarrow>
            (\<forall>x<H. u24_at (imbg_parse_payload (dLv ! i)) (3 * (a * H + x)) = BIAS_INT)"
    by blast
  from pack_conf_ok [OF d(1) d(3), of Chq]
  obtain C_h where pch: "pack_conf Chq W H = Inr C_h" by blast
  from pack_conf_ok [OF d(1) d(3), of Cvq]
  obtain C_v where pcv: "pack_conf Cvq W H = Inr C_v" by blast
  have res: "compute_from_epis_with_diffs epi_h epi_v channel = Inr (C_h, C_v, dLu, dLv)"
    unfolding compute_unfold [OF ne ph pv lh lv]
    by (simp only: hu hv pch pcv ebind_def sum.case prod.case)
  have su0: "sample_of (Inr (dLu ! y)) (0 * W + x) = Some 0" if "y < H" "x < W" for y x
    by (rule sample_bias)
      (rule cu [rule_format, OF that(1) A0(1) disjI1 [OF refl] that(2)])
  have su1: "sample_of (Inr (dLu ! y)) ((A - 1) * W + x) = Some 0" if "y < H" "x < W" for y x
    by (rule sample_bias)
      (rule cu [rule_format, OF that(1) A0(2) disjI2 [OF refl] that(2)])
  have sv0: "sample_of (Inr (dLv ! x)) (0 * H + y) = Some 0" if "x < W" "y < H" for y x
    by (rule sample_bias)
      (rule cv [rule_format, OF that(1) A0(1) disjI1 [OF refl] that(2)])
  have sv1: "sample_of (Inr (dLv ! x)) ((A - 1) * H + y) = Some 0" if "x < W" "y < H" for y x
    by (rule sample_bias)
      (rule cv [rule_format, OF that(1) A0(2) disjI2 [OF refl] that(2)])
  show ?thesis
    using res lu lv' su0 su1 sv0 sv1
    by (intro exI [of _ C_h] exI [of _ C_v] exI [of _ dLu] exI [of _ dLv] conjI allI impI)
      assumption+
qed

theorem confidence_degenerate_zero_witness:
  "\<exists>C_h C_v dL_du_h dL_dv_v.
      compute_from_epis_with_diffs
        [[0x49, 0x4D, 0x47, 0x42, 1, 0, 0, 0, 2, 0, 0, 0, 3, 4, 0, 0,
          1, 2, 3, 4, 5, 6, 7, 8, 9, 10, 11, 12, 13, 14, 15, 16, 17, 18]]
        [[0x49, 0x4D, 0x47, 0x42, 1, 0, 0, 0, 2, 0, 0, 0, 3, 4, 0, 0,
          1, 2, 3, 4, 5, 6, 7, 8, 9, 10, 11, 12, 13, 14, 15, 16, 17, 18]]
        None = Inr (C_h, C_v, dL_du_h, dL_dv_v)
      \<and> sample_of (Inr C_h) 0 = Some 0 \<and> sample_of (Inr C_v) 0 = Some 0
      \<and> length dL_du_h = 1 \<and> length dL_dv_v = 1
      \<and> sample_of (Inr (dL_du_h ! 0)) 1 = Some 0
      \<and> sample_of (Inr (dL_dv_v ! 0)) 1 = Some 0"
proof -
  let ?b = "[0x49, 0x4D, 0x47, 0x42, 1, 0, 0, 0, 2, 0, 0, 0, 3, 4, 0, 0,
          1, 2, 3, 4, 5, 6, 7, 8, 9, 10, 11, 12, 13, 14, 15, 16, 17, 18] :: bytes"
  let ?p = "[1, 2, 3, 4, 5, 6, 7, 8, 9, 10, 11, 12, 13, 14, 15, 16, 17, 18] :: bytes"
  have p: "imgb_parse ([?b] ! 0) = Inr (1, 2, 3, 4, ?p)"
    by (simp add: imgb_parse_def bytes_per_sample_def u32_le_def py_slice_def MAGIC_def ebind_def)
  have ne: "[?b] \<noteq> []" by simp
  have l: "length [?b] = 1" by simp
  have A: "(2::nat) = 1 \<or> (2::nat) = 2" by simp
  from confidence_degenerate_zero [OF ne ne p p l l A, of None]
  obtain C_h C_v dLu dLv where
    r: "compute_from_epis_with_diffs [?b] [?b] None = Inr (C_h, C_v, dLu, dLv)"
    and c: "\<forall>j<1 * 1. sample_of (Inr C_h) j = Some 0 \<and> sample_of (Inr C_v) j = Some 0"
    and lu: "length dLu = 1" and lv: "length dLv = 1"
    and su: "\<forall>y<1. \<forall>j<2 * 1. sample_of (Inr (dLu ! y)) j = Some 0"
    and sv: "\<forall>x<1. \<forall>j<2 * 1. sample_of (Inr (dLv ! x)) j = Some 0"
    by (elim exE conjE)
  have i0: "(0::nat) < 1 * 1" "(0::nat) < 1" "(1::nat) < 2 * 1" by simp_all
  note c0 = c [rule_format, OF i0(1)]
  note su0 = su [rule_format, OF i0(2) i0(3)]
  note sv0 = sv [rule_format, OF i0(2) i0(3)]
  show ?thesis
    using r c0 lu lv su0 sv0
    by (intro exI [of _ C_h] exI [of _ C_v] exI [of _ dLu] exI [of _ dLv]) simp
qed

theorem confidence_border_zero_witness:
  "\<exists>C_h C_v dL_du_h dL_dv_v.
      compute_from_epis_with_diffs
        [[0x49, 0x4D, 0x47, 0x42, 1, 0, 0, 0, 3, 0, 0, 0, 3, 4, 0, 0,
          1, 2, 3, 4, 5, 6, 7, 8, 9, 10, 11, 12, 13, 14, 15, 16, 17, 18,
          19, 20, 21, 22, 23, 24, 25, 26, 27]]
        [[0x49, 0x4D, 0x47, 0x42, 1, 0, 0, 0, 3, 0, 0, 0, 3, 4, 0, 0,
          1, 2, 3, 4, 5, 6, 7, 8, 9, 10, 11, 12, 13, 14, 15, 16, 17, 18,
          19, 20, 21, 22, 23, 24, 25, 26, 27]]
        None = Inr (C_h, C_v, dL_du_h, dL_dv_v)
      \<and> length dL_du_h = 1 \<and> length dL_dv_v = 1
      \<and> sample_of (Inr (dL_du_h ! 0)) 0 = Some 0 \<and> sample_of (Inr (dL_du_h ! 0)) 2 = Some 0
      \<and> sample_of (Inr (dL_dv_v ! 0)) 0 = Some 0 \<and> sample_of (Inr (dL_dv_v ! 0)) 2 = Some 0"
proof -
  let ?b = "[0x49, 0x4D, 0x47, 0x42, 1, 0, 0, 0, 3, 0, 0, 0, 3, 4, 0, 0,
          1, 2, 3, 4, 5, 6, 7, 8, 9, 10, 11, 12, 13, 14, 15, 16, 17, 18,
          19, 20, 21, 22, 23, 24, 25, 26, 27] :: bytes"
  let ?p = "[1, 2, 3, 4, 5, 6, 7, 8, 9, 10, 11, 12, 13, 14, 15, 16, 17, 18,
          19, 20, 21, 22, 23, 24, 25, 26, 27] :: bytes"
  have p: "imgb_parse ([?b] ! 0) = Inr (1, 3, 3, 4, ?p)"
    by (simp add: imgb_parse_def bytes_per_sample_def u32_le_def py_slice_def MAGIC_def ebind_def)
  have ne: "[?b] \<noteq> []" by simp
  have l: "length [?b] = 1" by simp
  have A: "(3::nat) \<le> 3" by simp
  have pays: "\<forall>y<1. 3 * 1 * 9 \<le> length (imbg_parse_payload ([?b] ! y))"
    by (simp add: imbg_parse_payload_def)
  have chan: "(None :: int option) = None \<or> None = Some 0 \<or> None = Some 1 \<or> None = Some 2"
    by simp
  from confidence_border_zero [OF ne ne p p l l A pays pays chan]
  obtain C_h C_v dLu dLv where
    r: "compute_from_epis_with_diffs [?b] [?b] None = Inr (C_h, C_v, dLu, dLv)"
    and lu: "length dLu = 1" and lv: "length dLv = 1"
    and su: "\<forall>y<1. \<forall>x<1. sample_of (Inr (dLu ! y)) (0 * 1 + x) = Some 0
                      \<and> sample_of (Inr (dLu ! y)) ((3 - 1) * 1 + x) = Some 0"
    and sv: "\<forall>x<1. \<forall>y<1. sample_of (Inr (dLv ! x)) (0 * 1 + y) = Some 0
                      \<and> sample_of (Inr (dLv ! x)) ((3 - 1) * 1 + y) = Some 0"
    by (elim exE conjE)
  have i0: "(0::nat) < 1" by simp
  note su0 = su [rule_format, OF i0 i0]
  note sv0 = sv [rule_format, OF i0 i0]
  show ?thesis
    using r lu lv su0 sv0
    by (intro exI [of _ C_h] exI [of _ C_v] exI [of _ dLu] exI [of _ dLv]) simp
qed

end
